theory Spec2Isabelle
  imports Main "HOL-Library.Word" "HOL-Library.List_Lexorder" "HOL-Library.Char_ord"
begin

section \<open>Go integers and their decimal text\<close>

text \<open>
  Go's \<open>int\<close> on the 64-bit targets the tool is built for: a 64-bit word read as a
  signed number. \<open>ctx.Counter++\<close> is \<open>+ 1\<close> on the word, so it wraps as Go does.
\<close>

type_synonym go_int = "64 word"

definition digit_char :: "nat \<Rightarrow> char" where
  "digit_char d = ''0123456789'' ! d"

fun nat_dec :: "nat \<Rightarrow> string" where
  "nat_dec n = (if n < 10 then [digit_char n] else nat_dec (n div 10) @ [digit_char (n mod 10)])"

declare nat_dec.simps [simp del]

text \<open>What \<open>fmt\<close> and \<open>text/template\<close> print for an \<open>int\<close>: decimal, with a minus sign.\<close>

definition Itoa :: "go_int \<Rightarrow> string" where
  "Itoa i = (if sint i < 0 then CHR ''-'' # nat_dec (nat (- sint i)) else nat_dec (nat (sint i)))"

definition is_digit :: "char \<Rightarrow> bool" where
  "is_digit c = (CHR ''0'' \<le> c \<and> c \<le> CHR ''9'')"

fun digits_val :: "nat \<Rightarrow> string \<Rightarrow> nat" where
  "digits_val acc [] = acc"
| "digits_val acc (c # cs) = digits_val (acc * 10 + (of_char c - 48)) cs"

text \<open>
  \<open>strconv.Atoi\<close>: an optional sign, then decimal digits only; an empty digit string, any
  other byte, or a value outside the 64-bit range is an error (\<open>None\<close>).
\<close>

definition Atoi :: "string \<Rightarrow> int option" where
  "Atoi s =
     (let (neg, ds) =
        (case s of
           [] \<Rightarrow> (False, s)
         | c # r \<Rightarrow> if c = CHR ''-'' then (True, r) else if c = CHR ''+'' then (False, r) else (False, s))
      in if ds = [] \<or> \<not> list_all is_digit ds then None
         else let n = int (digits_val 0 ds); i = (if neg then - n else n)
              in if i < - (2 ^ 63) \<or> 2 ^ 63 \<le> i then None else Some i)"

section \<open>The fastjson values the tool reads and edits\<close>

text \<open>
  The tool parses every response with the \<open>fastjson\<close> package and works on its
  \<open>Value\<close> tree through \<open>Exists\<close>, \<open>Get\<close>, \<open>GetArray\<close>, \<open>GetStringBytes\<close>, \<open>GetInt\<close>
  and \<open>Del\<close>. The package is a dependency, not part of the repository; the functions
  below follow its documented behaviour. An object keeps its members as a list, in the
  order of the text, and a lookup or a deletion takes the first member with the key.
  A missing value is Go's \<open>nil\<close> pointer, here \<open>None\<close>; every accessor accepts it.
\<close>

datatype Value =
    TypeObject "(string \<times> Value) list"
  | TypeArray "Value list"
  | TypeString string
  | TypeNumber string
  | TypeTrue
  | TypeFalse
  | TypeNull

fun Object_Get :: "(string \<times> Value) list \<Rightarrow> string \<Rightarrow> Value option" where
  "Object_Get [] key = None"
| "Object_Get ((k, v) # kvs) key = (if k = key then Some v else Object_Get kvs key)"

fun Object_Del :: "(string \<times> Value) list \<Rightarrow> string \<Rightarrow> (string \<times> Value) list" where
  "Object_Del [] key = []"
| "Object_Del ((k, v) # kvs) key = (if k = key then kvs else (k, v) # Object_Del kvs key)"

text \<open>One key of a \<open>Get\<close> path: a member of an object, or a decimal index into an array.\<close>

fun Get_key :: "Value \<Rightarrow> string \<Rightarrow> Value option" where
  "Get_key (TypeObject kvs) key = Object_Get kvs key"
| "Get_key (TypeArray a) key =
     (case Atoi key of
        None \<Rightarrow> None
      | Some n \<Rightarrow> if n < 0 \<or> int (length a) \<le> n then None else Some (a ! nat n))"
| "Get_key _ key = None"

fun Get :: "Value option \<Rightarrow> string list \<Rightarrow> Value option" where
  "Get None keys = None"
| "Get (Some v) [] = Some v"
| "Get (Some v) (key # keys) = Get (Get_key v key) keys"

definition Exists :: "Value option \<Rightarrow> string list \<Rightarrow> bool" where
  "Exists v keys = (Get v keys \<noteq> None)"

definition GetArray :: "Value option \<Rightarrow> string list \<Rightarrow> Value list" where
  "GetArray v keys = (case Get v keys of Some (TypeArray a) \<Rightarrow> a | _ \<Rightarrow> [])"

definition GetStringBytes :: "Value option \<Rightarrow> string list \<Rightarrow> string" where
  "GetStringBytes v keys = (case Get v keys of Some (TypeString s) \<Rightarrow> s | _ \<Rightarrow> [])"

text \<open>
  \<open>GetInt\<close> reads a number through \<open>fastfloat.ParseInt64BestEffort\<close>: an optional minus
  sign and decimal digits within 64 bits give the integer, anything else gives 0.
\<close>

definition ParseInt64BestEffort :: "string \<Rightarrow> go_int" where
  "ParseInt64BestEffort s =
     (case s of
        [] \<Rightarrow> 0
      | c # r \<Rightarrow> if c = CHR ''+'' then 0 else (case Atoi s of None \<Rightarrow> 0 | Some i \<Rightarrow> word_of_int i))"

definition GetInt :: "Value option \<Rightarrow> string list \<Rightarrow> go_int" where
  "GetInt v keys = (case Get v keys of Some (TypeNumber s) \<Rightarrow> ParseInt64BestEffort s | _ \<Rightarrow> 0)"

fun Del :: "Value \<Rightarrow> string \<Rightarrow> Value" where
  "Del (TypeObject kvs) key = TypeObject (Object_Del kvs key)"
| "Del (TypeArray a) key =
     (case Atoi key of
        None \<Rightarrow> TypeArray a
      | Some n \<Rightarrow> if n < 0 \<or> int (length a) \<le> n then TypeArray a
                  else TypeArray (take (nat n) a @ drop (Suc (nat n)) a))"
| "Del v key = v"

section \<open>Configuration, context and the query template\<close>

record Configuration =
  Base :: string
  User :: string
  Password :: string
  Tls :: bool
  Tls_ca :: string
  Index :: string
  Size :: go_int
  File :: string
  Brotli :: bool
  Quality :: go_int

text \<open>The HTTP exchange: what \<open>http_get\<close> puts into a request and reads from a response.\<close>

record Request =
  uri :: string
  body :: string
  user :: string
  password :: string

record Response =
  StatusCode :: int
  Body :: string

text \<open>
  The parsed \<open>query_template\<close>: literal text, the actions \<open>{{.Size}}\<close> and \<open>{{.After}}\<close>,
  and \<open>{{if .After}} ... {{end}}\<close>.
\<close>

datatype Node = TextNode string | FieldSize | FieldAfter | IfAfter "Node list"

text \<open>
  The dump context. \<open>Client\<close> is the HTTP client together with the service behind it:
  \<open>None\<close> stands for an error of \<open>http.NewRequest\<close>, \<open>Client.Do\<close> or \<open>io.ReadAll\<close>.
  \<open>Parser\<close> is \<open>fastjson\<close>'s \<open>ParseBytes\<close>, \<open>None\<close> its error. \<open>Tasks\<close> is the channel
  seen from the sending side: the records sent on it so far, oldest first.
\<close>

record Context =
  Size :: go_int
  After :: string
  Counter :: go_int
  Client :: "Request \<Rightarrow> Response option"
  Parser :: "string \<Rightarrow> Value option"
  Template :: "Node list"
  Tasks :: "string list"

text \<open>Line feed "constant".\<close>

definition ln :: string where
  "ln = [CHR 0x0A]"

definition tab :: string where
  "tab = [CHR 0x09]"

text \<open>
  \<open>build_query_template\<close>: the template text of the source, parsed. The text is
  \<^verbatim>\<open>{\n\t"size": {{.Size}},\n\t"query": {"bool": {"must": {"match_all": {}}}},{{if .After}}\n\t"search_after": ["{{.After}}"],{{end}}\n\t"sort": [\n\t  { "_id": "asc" } \n\t]\n}\<close>.
\<close>

definition build_query_template :: "Node list" where
  \<open>build_query_template =
     [TextNode (''{'' @ ln @ tab @ ''"size": ''),
      FieldSize,
      TextNode ('','' @ ln @ tab @ ''"query": {"bool": {"must": {"match_all": {}}}},''),
      IfAfter
        [TextNode (ln @ tab @ ''"search_after": ["''),
         FieldAfter,
         TextNode ''"],''],
      TextNode (ln @ tab @ ''"sort": ['' @ ln @ tab @ ''  { "_id": "asc" } '' @ ln @ tab @ '']'' @ ln @ ''}'')]\<close>

text \<open>
  \<open>Template.Execute\<close> on the context: an \<open>int\<close> prints in decimal, a string prints as it
  is (\<open>text/template\<close> escapes nothing), and \<open>if\<close> takes a string of length zero as false.
\<close>

fun Execute_node :: "Context \<Rightarrow> Node \<Rightarrow> string" where
  "Execute_node ctx (TextNode t) = t"
| "Execute_node ctx FieldSize = Itoa (Context.Size ctx)"
| "Execute_node ctx FieldAfter = After ctx"
| "Execute_node ctx (IfAfter ns) = (if After ctx \<noteq> [] then concat (map (Execute_node ctx) ns) else [])"

definition Execute :: "Node list \<Rightarrow> Context \<Rightarrow> string" where
  "Execute tmpl ctx = concat (map (Execute_node ctx) tmpl)"

text \<open>
  The query document as the interface description gives it, with the window size and the
  cursor filled in and the \<open>search_after\<close> clause left out when there is no cursor; and
  a text with its layout (blanks, tabs, line ends) taken out, to compare two layouts of
  one document.
\<close>

definition query_document :: "go_int \<Rightarrow> string \<Rightarrow> string" where
  \<open>query_document W c =
     ''{"size": '' @ Itoa W @ '', "query": {"bool": {"must": {"match_all": {}}}}, '' @
     (if c = [] then [] else ''"search_after": ["'' @ c @ ''"], '') @
     ''"sort": [{"_id": "asc"}]}''\<close>

definition is_layout :: "char \<Rightarrow> bool" where
  "is_layout ch = (ch = CHR '' '' \<or> ch = CHR 0x09 \<or> ch = CHR 0x0A \<or> ch = CHR 0x0D)"

definition squeeze :: "string \<Rightarrow> string" where
  "squeeze s = filter (\<lambda>ch. \<not> is_layout ch) s"

section \<open>Parsing one window of search results\<close>

text \<open>Every \<open>log.Fatal\<close> of the source ends the process; the model returns which one it was.\<close>

datatype fatal =
    TransportFailed
  | InvalidStatus int
  | ParseFailed
  | HitsMissing
  | NothingToDump
  | OpenFailed

text \<open>
  The loop over the hits of \<open>parse_search_results\<close>, with the result slice and the context
  it updates. \<open>MarshalTo\<close> is \<open>fastjson\<close>'s serialiser, taken as given.
\<close>

fun parse_hits :: "(Value \<Rightarrow> string) \<Rightarrow> Value list \<Rightarrow> string list \<times> Context \<Rightarrow> string list \<times> Context" where
  "parse_hits MarshalTo [] (result, ctx) = (result, ctx)"
| "parse_hits MarshalTo (v # vs) (result, ctx) =
     (let sort = GetStringBytes (Some v) [''sort'', ''0''];
          ctx1 = (if sort \<noteq> [] then ctx\<lparr>After := sort\<rparr> else ctx);
          v' = (if Exists (Some v) [''sort''] then Del v ''sort'' else v);
          ctx2 = ctx1\<lparr>Counter := Counter ctx1 + 1\<rparr>
      in parse_hits MarshalTo vs (result @ [MarshalTo v'], ctx2))"

definition parse_search_results ::
  "(Value \<Rightarrow> string) \<Rightarrow> string \<Rightarrow> Context \<Rightarrow> fatal + (string list \<times> Context)" where
  "parse_search_results MarshalTo input ctx =
     (case Parser ctx input of
        None \<Rightarrow> Inl ParseFailed
      | Some json \<Rightarrow>
          if \<not> Exists (Some json) [''hits''] then Inl HitsMissing
          else let results = GetArray (Get (Get (Some json) [''hits'']) [''hits'']) []
               in if length results = 0 then Inr ([], ctx)
                  else Inr (parse_hits MarshalTo results ([], ctx)))"

text \<open>
  Two expressions of that loop by name: the string it reads as the new cursor, and the
  hit as it is serialised.
\<close>

definition sort_value :: "Value \<Rightarrow> string" where
  "sort_value v = GetStringBytes (Some v) [''sort'', ''0'']"

definition strip_sort :: "Value \<Rightarrow> Value" where
  "strip_sort v = (if Exists (Some v) [''sort''] then Del v ''sort'' else v)"

text \<open>The cursor after a run of hits: the last non-empty string read, or the old cursor.\<close>

definition last_key :: "string \<Rightarrow> Value list \<Rightarrow> string" where
  "last_key c vs = last (c # filter (\<lambda>s. s \<noteq> []) (map sort_value vs))"

section \<open>The outside world: requests made and files on disk\<close>

text \<open>
  \<open>requests\<close> records every exchange \<open>http_get\<close> attempts, oldest first; \<open>files\<close> maps a
  path to the bytes stored under it.
\<close>

record World =
  requests :: "Request list"
  files :: "string \<rightharpoonup> string"

text \<open>Helper function for opensearch queries. Anything besides 200 OK is fatal.\<close>

definition http_get ::
  "string \<Rightarrow> string \<Rightarrow> Configuration \<Rightarrow> Context \<Rightarrow> World \<Rightarrow> (fatal + string) \<times> World" where
  "http_get u b config ctx w =
     (let req = \<lparr>uri = u, body = b, user = User config, password = Password config\<rparr>;
          w' = w\<lparr>requests := requests w @ [req]\<rparr>
      in case Client ctx req of
           None \<Rightarrow> (Inl TransportFailed, w')
         | Some resp \<Rightarrow>
             if StatusCode resp \<noteq> 200 then (Inl (InvalidStatus (StatusCode resp)), w')
             else (Inr (Body resp), w'))"

text \<open>Queries the opensearch for total amount of data.\<close>

definition query_count_database ::
  "Configuration \<Rightarrow> Context \<Rightarrow> World \<Rightarrow> (fatal + go_int) \<times> World" where
  "query_count_database config ctx w =
     (case http_get (Base config @ ''/'' @ Index config @ ''/_count'') [] config ctx w of
        (Inl e, w') \<Rightarrow> (Inl e, w')
      | (Inr bodyBytes, w') \<Rightarrow>
          (case Parser ctx bodyBytes of
             None \<Rightarrow> (Inl ParseFailed, w')
           | Some json \<Rightarrow>
               (Inr (if Exists (Some json) [''count''] then GetInt (Some json) [''count''] else 0), w')))"

text \<open>Queries the opensearch for one window of data.\<close>

definition query_search_database ::
  "Configuration \<Rightarrow> Context \<Rightarrow> World \<Rightarrow> (fatal + string) \<times> World" where
  "query_search_database config ctx w =
     http_get (Base config @ ''/'' @ Index config @ ''/_search?request_cache=true'')
       (Execute (Template ctx) ctx) config ctx w"

section \<open>The producer\<close>

text \<open>
  The producer's loop: query, parse, send every record of the window, stop after a window
  without records. The loop has no bound of its own, so the function is partial: \<open>None\<close>
  is a run that never leaves the loop. A fatal error ends it with \<open>Inl\<close>.
\<close>

partial_function (option) producer ::
  "(Value \<Rightarrow> string) \<Rightarrow> Context \<Rightarrow> Configuration \<Rightarrow> World \<Rightarrow> ((fatal + Context) \<times> World) option" where
  "producer MarshalTo ctx config w =
     (case query_search_database config ctx w of
        (Inl e, w') \<Rightarrow> Some (Inl e, w')
      | (Inr q, w') \<Rightarrow>
          (case parse_search_results MarshalTo q ctx of
             Inl e \<Rightarrow> Some (Inl e, w')
           | Inr (r, ctx') \<Rightarrow>
               if length r = 0 then Some (Inr (ctx'\<lparr>Tasks := Tasks ctx' @ r\<rparr>), w')
               else producer MarshalTo (ctx'\<lparr>Tasks := Tasks ctx' @ r\<rparr>) config w'))"

declare producer.simps [code]

text \<open>
  What the producer's loop comes to from a context, the world left aside: the world only
  keeps the record of the requests.
\<close>

definition outcome :: "(Value \<Rightarrow> string) \<Rightarrow> Context \<Rightarrow> Configuration \<Rightarrow> (fatal + Context) option" where
  "outcome MarshalTo ctx config =
     map_option fst (producer MarshalTo ctx config \<lparr>requests = [], files = Map.empty\<rparr>)"

section \<open>An index behind the service\<close>

text \<open>The request \<open>query_search_database\<close> sends for a context.\<close>

definition search_request :: "Configuration \<Rightarrow> Context \<Rightarrow> Request" where
  "search_request config ctx =
     \<lparr>uri = Base config @ ''/'' @ Index config @ ''/_search?request_cache=true'',
      body = Execute (Template ctx) ctx, user = User config, password = Password config\<rparr>"

text \<open>The request \<open>query_count_database\<close> sends.\<close>

definition count_request :: "Configuration \<Rightarrow> Request" where
  "count_request config =
     \<lparr>uri = Base config @ ''/'' @ Index config @ ''/_count'', body = [],
      user = User config, password = Password config\<rparr>"

text \<open>
  The service, as the search protocol describes it. An index is the list of its hits in
  ascending order of their sort value, which is the unique identifier and never empty.
  A query of size \<open>W\<close> is answered with the first \<open>W\<close> hits, or, with \<open>search_after\<close>, with
  the first \<open>W\<close> hits whose sort value lies strictly after the cursor.
\<close>

definition index_ok :: "Value list \<Rightarrow> bool" where
  "index_ok docs = (sorted_wrt (<) (map sort_value docs) \<and> list_all (\<lambda>d. sort_value d \<noteq> []) docs)"

definition window :: "nat \<Rightarrow> string \<Rightarrow> Value list \<Rightarrow> Value list" where
  "window W c docs = take W (if c = [] then docs else filter (\<lambda>d. c < sort_value d) docs)"

text \<open>
  The client of a context answers the query for cursor \<open>c\<close> as that service does: status
  200 and a body with the window in \<open>hits.hits\<close>. Nothing is said of the count endpoint.
\<close>

definition answers :: "Configuration \<Rightarrow> Context \<Rightarrow> Value list \<Rightarrow> string \<Rightarrow> bool" where
  "answers config ctx docs c =
     (case Client ctx (search_request config (ctx\<lparr>After := c\<rparr>)) of
        None \<Rightarrow> False
      | Some resp \<Rightarrow>
          StatusCode resp = 200 \<and>
          (case Parser ctx (Body resp) of
             None \<Rightarrow> False
           | Some json \<Rightarrow>
               Exists (Some json) [''hits''] \<and>
               GetArray (Some json) [''hits'', ''hits''] = window (nat (sint (Context.Size ctx))) c docs))"

definition serves :: "Configuration \<Rightarrow> Context \<Rightarrow> Value list \<Rightarrow> bool" where
  "serves config ctx docs = list_all (answers config ctx docs) ([] # map sort_value docs)"

text \<open>
  The cursor once the hits \<open>pre\<close> have been read; the cursors of the queries made from
  there on with the hits \<open>rem\<close> still to come; and the windows those queries return.
\<close>

definition cursor_after :: "Value list \<Rightarrow> string" where
  "cursor_after pre = (if pre = [] then [] else sort_value (last pre))"

function walk :: "nat \<Rightarrow> Value list \<Rightarrow> Value list \<Rightarrow> string list" where
  "walk W pre rem =
     cursor_after pre # (if rem = [] \<or> W = 0 then [] else walk W (pre @ take W rem) (drop W rem))"
  by pat_completeness auto
termination
  by (relation "measure (\<lambda>(W, pre, rem). length rem)") auto

declare walk.simps [simp del]

function windows :: "nat \<Rightarrow> Value list \<Rightarrow> Value list list" where
  "windows W rem = take W rem # (if rem = [] \<or> W = 0 then [] else windows W (drop W rem))"
  by pat_completeness auto
termination
  by (relation "measure (\<lambda>(W, rem). length rem)") auto

declare windows.simps [simp del]

text \<open>The hits array the client of a context returns for a request.\<close>

definition hits_of :: "Context \<Rightarrow> Request \<Rightarrow> Value list" where
  "hits_of ctx req =
     (case Client ctx req of
        None \<Rightarrow> []
      | Some resp \<Rightarrow>
          (case Parser ctx (Body resp) of
             None \<Rightarrow> []
           | Some json \<Rightarrow> GetArray (Some json) [''hits'', ''hits'']))"

section \<open>The consumer and the two goroutines side by side\<close>

text \<open>The body of the consumer's loop: the record, then the line feed.\<close>

definition Write_record :: "string \<Rightarrow> string \<Rightarrow> string" where
  "Write_record out data = (out @ data) @ ln"

text \<open>
  What the orderly shutdown leaves in the file: the bytes written, passed through the
  brotli writer when it is configured. The compressor is a dependency, taken as given.
\<close>

definition sink_bytes :: "(go_int \<Rightarrow> string \<Rightarrow> string) \<Rightarrow> Configuration \<Rightarrow> string \<Rightarrow> string" where
  "sink_bytes compress config out = (if Brotli config then compress (Quality config) out else out)"

text \<open>
  Where each goroutine stands. The producer is fetching a window, or inside
  \<open>for x := range r\<close> with the records still to send and \<open>len(r)\<close>, or past its loop.
  The consumer is about to open the file, or inside \<open>for data := range *ctx.Tasks\<close>, or done.
\<close>

datatype producer_pc = Fetching | Sending "string list" nat | ProducerDone

datatype consumer_pc = Opening | Receiving | ConsumerDone

text \<open>
  The running process after the pre-flight check: the context, the world, both goroutines,
  the channel's buffer and whether it is closed, the bytes handed to the writer, and the
  fatal error that ended the process, if one did.
\<close>

record Pipeline =
  dump :: Context
  world :: World
  producer_at :: producer_pc
  chan :: "string list"
  closed :: bool
  consumer_at :: consumer_pc
  written :: string
  exited :: "fatal option"

text \<open>
  A step of the producer goroutine. A send needs room in the buffer, or, with an empty
  buffer, a consumer waiting to receive, which then takes the record at once (the only
  way through a channel of capacity zero). A fatal error ends the process; if the
  consumer had opened the file by then, nothing was flushed in order, and the file holds
  whatever had reached it.
\<close>

inductive producer_step ::
  "(Value \<Rightarrow> string) \<Rightarrow> Configuration \<Rightarrow> nat \<Rightarrow> Pipeline \<Rightarrow> Pipeline \<Rightarrow> bool"
  for MarshalTo :: "Value \<Rightarrow> string" and config :: Configuration and cap :: nat where
  fetch:
    "\<lbrakk>exited s = None; consumer_at s \<noteq> ConsumerDone; producer_at s = Fetching;
      query_search_database config (dump s) (world s) = (Inr q, w');
      parse_search_results MarshalTo q (dump s) = Inr (r, ctx')\<rbrakk>
     \<Longrightarrow> producer_step MarshalTo config cap s (s\<lparr>dump := ctx', world := w', producer_at := Sending r (length r)\<rparr>)"
| query_fatal:
    "\<lbrakk>exited s = None; consumer_at s \<noteq> ConsumerDone; producer_at s = Fetching;
      query_search_database config (dump s) (world s) = (Inl e, w');
      if consumer_at s = Opening then w'' = w' else w'' = w'\<lparr>files := (files w')(File config \<mapsto> left)\<rparr>\<rbrakk>
     \<Longrightarrow> producer_step MarshalTo config cap s (s\<lparr>world := w'', exited := Some e\<rparr>)"
| parse_fatal:
    "\<lbrakk>exited s = None; consumer_at s \<noteq> ConsumerDone; producer_at s = Fetching;
      query_search_database config (dump s) (world s) = (Inr q, w');
      parse_search_results MarshalTo q (dump s) = Inl e;
      if consumer_at s = Opening then w'' = w' else w'' = w'\<lparr>files := (files w')(File config \<mapsto> left)\<rparr>\<rbrakk>
     \<Longrightarrow> producer_step MarshalTo config cap s (s\<lparr>world := w'', exited := Some e\<rparr>)"
| send:
    "\<lbrakk>exited s = None; consumer_at s \<noteq> ConsumerDone; producer_at s = Sending (x # xs) n; length (chan s) < cap\<rbrakk>
     \<Longrightarrow> producer_step MarshalTo config cap s
           (s\<lparr>dump := (dump s)\<lparr>Tasks := Tasks (dump s) @ [x]\<rparr>, producer_at := Sending xs n, chan := chan s @ [x]\<rparr>)"
| hand_over:
    "\<lbrakk>exited s = None; producer_at s = Sending (x # xs) n; chan s = []; consumer_at s = Receiving\<rbrakk>
     \<Longrightarrow> producer_step MarshalTo config cap s
           (s\<lparr>dump := (dump s)\<lparr>Tasks := Tasks (dump s) @ [x]\<rparr>, producer_at := Sending xs n,
              written := Write_record (written s) x\<rparr>)"
| next_window:
    "\<lbrakk>exited s = None; consumer_at s \<noteq> ConsumerDone; producer_at s = Sending [] n; n \<noteq> 0\<rbrakk>
     \<Longrightarrow> producer_step MarshalTo config cap s (s\<lparr>producer_at := Fetching\<rparr>)"
| break:
    "\<lbrakk>exited s = None; consumer_at s \<noteq> ConsumerDone; producer_at s = Sending [] 0\<rbrakk>
     \<Longrightarrow> producer_step MarshalTo config cap s (s\<lparr>producer_at := ProducerDone\<rparr>)"
| close:
    "\<lbrakk>exited s = None; consumer_at s \<noteq> ConsumerDone; producer_at s = ProducerDone; \<not> closed s\<rbrakk>
     \<Longrightarrow> producer_step MarshalTo config cap s (s\<lparr>closed := True\<rparr>)"

text \<open>
  A step of the consumer goroutine: the exclusive creation of the file, fatal when the
  path is taken; one record received and written; and, on the closed and drained channel,
  the orderly shutdown that flushes everything into the file.
\<close>

inductive consumer_step ::
  "(go_int \<Rightarrow> string \<Rightarrow> string) \<Rightarrow> Configuration \<Rightarrow> Pipeline \<Rightarrow> Pipeline \<Rightarrow> bool"
  for compress :: "go_int \<Rightarrow> string \<Rightarrow> string" and config :: Configuration where
  open_fatal:
    "\<lbrakk>exited s = None; consumer_at s = Opening; File config \<in> dom (files (world s))\<rbrakk>
     \<Longrightarrow> consumer_step compress config s (s\<lparr>exited := Some OpenFailed\<rparr>)"
| open_created:
    "\<lbrakk>exited s = None; consumer_at s = Opening; File config \<notin> dom (files (world s))\<rbrakk>
     \<Longrightarrow> consumer_step compress config s
           (s\<lparr>world := (world s)\<lparr>files := (files (world s))(File config \<mapsto> [])\<rparr>, consumer_at := Receiving\<rparr>)"
| receive:
    "\<lbrakk>exited s = None; consumer_at s = Receiving; chan s = x # rest\<rbrakk>
     \<Longrightarrow> consumer_step compress config s (s\<lparr>chan := rest, written := Write_record (written s) x\<rparr>)"
| shutdown:
    "\<lbrakk>exited s = None; consumer_at s = Receiving; chan s = []; closed s\<rbrakk>
     \<Longrightarrow> consumer_step compress config s
           (s\<lparr>world := (world s)\<lparr>files := (files (world s))(File config \<mapsto> sink_bytes compress config (written s))\<rparr>,
              consumer_at := ConsumerDone\<rparr>)"

text \<open>The scheduler runs either goroutine, in any order and at any relative speed.\<close>

definition step ::
  "(Value \<Rightarrow> string) \<Rightarrow> (go_int \<Rightarrow> string \<Rightarrow> string) \<Rightarrow> Configuration \<Rightarrow> nat \<Rightarrow> Pipeline \<Rightarrow> Pipeline \<Rightarrow> bool" where
  "step MarshalTo compress config cap s s' =
     (producer_step MarshalTo config cap s s' \<or> consumer_step compress config s s')"

definition reaches ::
  "(Value \<Rightarrow> string) \<Rightarrow> (go_int \<Rightarrow> string \<Rightarrow> string) \<Rightarrow> Configuration \<Rightarrow> nat \<Rightarrow> Pipeline \<Rightarrow> Pipeline \<Rightarrow> bool" where
  "reaches MarshalTo compress config cap = (step MarshalTo compress config cap)\<^sup>*\<^sup>*"

text \<open>
  What holds of the process at every moment of a run: the bytes written, followed by the
  records still in the channel, each with its line feed, are the records sent so far, each
  with its line feed; the consumer has written nothing before it has opened the file;
  the channel is closed only after the producer has left its loop; and once the consumer
  is done the channel is closed and drained, no fatal error has occurred, and the file
  holds what the orderly shutdown leaves of the bytes written.
\<close>

definition fifo_inv :: "(go_int \<Rightarrow> string \<Rightarrow> string) \<Rightarrow> Configuration \<Rightarrow> Pipeline \<Rightarrow> bool" where
  "fifo_inv compress config s =
     (written s @ concat (map (\<lambda>r. r @ ln) (chan s)) = concat (map (\<lambda>r. r @ ln) (Tasks (dump s)))
      \<and> (consumer_at s = Opening \<longrightarrow> written s = [])
      \<and> (closed s \<longrightarrow> producer_at s = ProducerDone)
      \<and> (consumer_at s = ConsumerDone \<longrightarrow>
            chan s = [] \<and> closed s \<and> exited s = None
            \<and> files (world s) (File config) = Some (sink_bytes compress config (written s))))"

text \<open>
  The producer goroutine of the running process does what the producer's loop does: where
  it stands, the loop from its context, with the records of the window still to send
  counted as sent, comes to the same end as the loop from the start.
\<close>

definition producer_inv ::
  "(Value \<Rightarrow> string) \<Rightarrow> Configuration \<Rightarrow> (fatal + Context) option \<Rightarrow> Pipeline \<Rightarrow> bool" where
  "producer_inv MarshalTo config target s =
     (case producer_at s of
        Fetching \<Rightarrow> outcome MarshalTo (dump s) config = target
      | Sending xs n \<Rightarrow>
          if n = 0 then xs = [] \<and> Some (Inr (dump s)) = target
          else outcome MarshalTo ((dump s)\<lparr>Tasks := Tasks (dump s) @ xs\<rparr>) config = target
      | ProducerDone \<Rightarrow> Some (Inr (dump s)) = target)"

section \<open>The orchestrator\<close>

text \<open>
  \<open>main\<close> up to the start of the goroutines: the context, the count of documents, the
  abort on a count of zero. The HTTP client and the parser are built elsewhere and given.
  The result is the fatal error with the world it leaves, or the process about to run
  producer and consumer.
\<close>

definition main ::
  "Configuration \<Rightarrow> (Request \<Rightarrow> Response option) \<Rightarrow> (string \<Rightarrow> Value option) \<Rightarrow> World \<Rightarrow> (fatal \<times> World) + Pipeline" where
  "main config client parser w =
     (let ctx0 = \<lparr>Size = Configuration.Size config, After = [], Counter = 0, Client = client,
                  Parser = parser, Template = build_query_template, Tasks = []\<rparr>
      in case query_count_database config ctx0 w of
           (Inl e, w') \<Rightarrow> Inl (e, w')
         | (Inr c, w') \<Rightarrow>
             if c = 0 then Inl (NothingToDump, w')
             else Inr \<lparr>dump = ctx0, world = w', producer_at = Fetching, chan = [], closed = False,
                       consumer_at = Opening, written = [], exited = None\<rparr>)"

text \<open>The capacity \<open>main\<close> gives the channel.\<close>

definition tasks_capacity :: nat where
  "tasks_capacity = 100000"

section \<open>An example index and service\<close>

text \<open>
  The serialiser on values whose names and strings hold no byte that needs escaping: the
  text \<open>MarshalTo\<close> writes for them. It serves the example runs.
\<close>

fun join_comma :: "string list \<Rightarrow> string" where
  "join_comma [] = []"
| "join_comma [x] = x"
| "join_comma (x # y # ys) = x @ '','' @ join_comma (y # ys)"

fun MarshalTo_plain :: "Value \<Rightarrow> string" where
  \<open>MarshalTo_plain (TypeObject kvs) =
     ''{'' @ join_comma (map (\<lambda>kv. ''"'' @ fst kv @ ''":'' @ MarshalTo_plain (snd kv)) kvs) @ ''}''\<close>
| \<open>MarshalTo_plain (TypeArray a) = ''['' @ join_comma (map MarshalTo_plain a) @ '']''\<close>
| \<open>MarshalTo_plain (TypeString s) = ''"'' @ s @ ''"''\<close>
| \<open>MarshalTo_plain (TypeNumber s) = s\<close>
| \<open>MarshalTo_plain TypeTrue = ''true''\<close>
| \<open>MarshalTo_plain TypeFalse = ''false''\<close>
| \<open>MarshalTo_plain TypeNull = ''null''\<close>

text \<open>
  An index of three hits \<open>a\<close>, \<open>b\<close>, \<open>c\<close> behind a service that answers queries of
  size 2 from it, and a parser that knows the service's answers. The count endpoint
  reports 7, on purpose not the number of hits.
\<close>

definition example_config :: Configuration where
  "example_config =
     \<lparr>Base = ''https://localhost:9200'', User = ''graylog'', Password = ''password'', Tls = True,
      Tls_ca = ''ca.pem'', Index = ''graylog_0'', Size = 2, File = ''graylog_0.json'',
      Brotli = False, Quality = 2\<rparr>"

definition example_hit :: "string \<Rightarrow> Value" where
  "example_hit i = TypeObject [(''_id'', TypeString i), (''sort'', TypeArray [TypeString i])]"

definition example_docs :: "Value list" where
  "example_docs = map example_hit [''a'', ''b'', ''c'']"

definition example_answer :: "Value list \<Rightarrow> Value" where
  "example_answer page = TypeObject [(''took'', TypeNumber ''1''), (''hits'', TypeObject [(''hits'', TypeArray page)])]"

definition example_query :: "string \<Rightarrow> string" where
  "example_query c =
     Execute build_query_template
       \<lparr>Size = 2, After = c, Counter = 0, Client = (\<lambda>_. None), Parser = (\<lambda>_. None),
        Template = build_query_template, Tasks = []\<rparr>"

definition example_count :: Value where
  "example_count = TypeObject [(''count'', TypeNumber ''7'')]"

definition example_client :: "Request \<Rightarrow> Response option" where
  "example_client req =
     (if uri req = ''https://localhost:9200/graylog_0/_count''
      then Some \<lparr>StatusCode = 200, Body = MarshalTo_plain example_count\<rparr>
      else case find (\<lambda>c. body req = example_query c) [[], ''a'', ''b'', ''c''] of
             None \<Rightarrow> Some \<lparr>StatusCode = 400, Body = []\<rparr>
           | Some c \<Rightarrow> Some \<lparr>StatusCode = 200, Body = MarshalTo_plain (example_answer (window 2 c example_docs))\<rparr>)"

definition example_parser :: "string \<Rightarrow> Value option" where
  "example_parser =
     map_of (map (\<lambda>v. (MarshalTo_plain v, v))
       (example_count # map (\<lambda>c. example_answer (window 2 c example_docs)) [[], ''a'', ''b'', ''c'']))"

definition example_ctx :: Context where
  "example_ctx =
     \<lparr>Size = 2, After = [], Counter = 0, Client = example_client, Parser = example_parser,
      Template = build_query_template, Tasks = []\<rparr>"

definition example_world :: World where
  "example_world = \<lparr>requests = [], files = Map.empty\<rparr>"

text \<open>The example process as \<open>main\<close> starts it, after the count request.\<close>

definition example_start :: Pipeline where
  "example_start =
     \<lparr>dump = example_ctx, world = example_world\<lparr>requests := [count_request example_config]\<rparr>,
      producer_at = Fetching, chan = [], closed = False, consumer_at = Opening, written = [],
      exited = None\<rparr>"

text \<open>A context whose service gives one and the same answer to every request.\<close>

definition fixed_service :: "Response \<Rightarrow> Value \<Rightarrow> Context" where
  "fixed_service resp json =
     \<lparr>Size = 2, After = [], Counter = 0, Client = (\<lambda>_. Some resp),
      Parser = (\<lambda>b. if b = Body resp then Some json else None),
      Template = build_query_template, Tasks = []\<rparr>"

section \<open>Facts about the JSON accessors\<close>

lemma Get_Nil [simp]: "Get x [] = x"
  by (cases x) simp_all

lemma Get_Get: "Get (Get x ks) ks' = Get x (ks @ ks')"
proof (induction ks arbitrary: x)
  case Nil
  show ?case by simp
next
  case (Cons k ks)
  show ?case
  proof (cases x)
    case None
    then show ?thesis by simp
  next
    case (Some v)
    then show ?thesis using Cons.IH [of "Get_key v k"] by simp
  qed
qed

lemma Object_Get_None: "Object_Get kvs key = None \<longleftrightarrow> key \<notin> fst ` set kvs"
  by (induction kvs) (auto split: if_splits)

lemma Object_Get_split:
  "Object_Get kvs key = Some x \<Longrightarrow>
   \<exists>pre post. kvs = pre @ (key, x) # post \<and> key \<notin> fst ` set pre \<and> Object_Del kvs key = pre @ post"
proof (induction kvs)
  case Nil
  then show ?case by simp
next
  case (Cons kv kvs)
  obtain k v where kv: "kv = (k, v)" by (cases kv)
  show ?case
  proof (cases "k = key")
    case True
    with Cons.prems kv have "kv # kvs = [] @ (key, x) # kvs \<and> key \<notin> fst ` set [] \<and> Object_Del (kv # kvs) key = [] @ kvs"
      by simp
    then show ?thesis by blast
  next
    case False
    with Cons.prems kv have "Object_Get kvs key = Some x" by simp
    from Cons.IH [OF this] obtain pre post where
      "kvs = pre @ (key, x) # post" "key \<notin> fst ` set pre" "Object_Del kvs key = pre @ post" by blast
    with False kv have "kv # kvs = (kv # pre) @ (key, x) # post \<and> key \<notin> fst ` set (kv # pre)
        \<and> Object_Del (kv # kvs) key = (kv # pre) @ post"
      by auto
    then show ?thesis by blast
  qed
qed

lemma Object_Del_other: "k \<noteq> key \<Longrightarrow> Object_Get (Object_Del kvs key) k = Object_Get kvs k"
  by (induction kvs) auto

lemma Object_Del_distinct: "distinct (map fst kvs) \<Longrightarrow> Object_Get (Object_Del kvs key) key = None"
proof (induction kvs)
  case Nil
  show ?case by simp
next
  case (Cons kv kvs)
  obtain k v where kv: "kv = (k, v)" by (cases kv)
  show ?case
  proof (cases "k = key")
    case True
    with Cons.prems kv have "key \<notin> fst ` set kvs" by simp
    with True kv show ?thesis by (simp add: Object_Get_None)
  next
    case False
    with Cons kv show ?thesis by simp
  qed
qed

lemma Atoi_sort: "Atoi ''sort'' = None"
  by (simp add: Atoi_def is_digit_def)

lemma Exists_sort_cases:
  "Exists (Some v) [''sort''] \<longleftrightarrow> (\<exists>kvs x. v = TypeObject kvs \<and> Object_Get kvs ''sort'' = Some x)"
  by (cases v) (auto simp: Exists_def Atoi_sort)

lemma sort_value_absent: "\<not> Exists (Some v) [''sort''] \<Longrightarrow> sort_value v = []"
  by (simp add: sort_value_def GetStringBytes_def Exists_def)

section \<open>The loop over the hits\<close>

lemma parse_hits_Cons:
  "parse_hits M (v # vs) (res, c) =
   parse_hits M vs (res @ [M (strip_sort v)],
     c\<lparr>After := (if sort_value v \<noteq> [] then sort_value v else After c), Counter := Counter c + 1\<rparr>)"
  by (simp add: sort_value_def strip_sort_def Let_def)

lemma parse_hits_eq:
  "parse_hits M vs (res, c) =
   (res @ map (\<lambda>v. M (strip_sort v)) vs,
    c\<lparr>After := last_key (After c) vs, Counter := Counter c + of_nat (length vs)\<rparr>)"
proof (induction vs arbitrary: res c)
  case Nil
  show ?case by (simp add: last_key_def)
next
  case (Cons v vs)
  show ?case
    unfolding parse_hits_Cons Cons.IH
    by (simp add: last_key_def add.assoc add.commute)
qed

declare parse_hits.simps(2) [simp del]

lemma last_key_nonempty: "c \<noteq> [] \<Longrightarrow> last_key c vs \<noteq> []"
proof -
  assume c: "c \<noteq> []"
  have "last (c # filter (\<lambda>s. s \<noteq> []) ks) \<noteq> []" for ks :: "string list"
  proof (cases "filter (\<lambda>s. s \<noteq> []) ks = []")
    case True
    with c show ?thesis by simp
  next
    case False
    then have "last (filter (\<lambda>s. s \<noteq> []) ks) \<in> set (filter (\<lambda>s. s \<noteq> []) ks)"
      by (rule last_in_set)
    with False show ?thesis by simp
  qed
  then show ?thesis by (simp add: last_key_def)
qed

lemma last_key_all_keyed:
  assumes "vs \<noteq> []" and "list_all (\<lambda>d. sort_value d \<noteq> []) vs"
  shows "last_key c vs = sort_value (last vs)"
proof -
  from assms(2) have "filter (\<lambda>s. s \<noteq> []) (map sort_value vs) = map sort_value vs"
    by (simp add: filter_id_conv list_all_iff)
  with assms(1) show ?thesis by (simp add: last_key_def last_map)
qed

lemma parse_search_results_eq:
  assumes "Parser c input = Some json" and "Exists (Some json) [''hits'']"
  shows "parse_search_results M input c =
    Inr (map (\<lambda>v. M (strip_sort v)) (GetArray (Some json) [''hits'', ''hits'']),
         c\<lparr>After := last_key (After c) (GetArray (Some json) [''hits'', ''hits'']),
           Counter := Counter c + of_nat (length (GetArray (Some json) [''hits'', ''hits'']))\<rparr>)"
proof -
  have eq: "GetArray (Get (Get (Some json) [''hits'']) [''hits'']) [] = GetArray (Some json) [''hits'', ''hits'']"
    unfolding GetArray_def Get_Get by simp
  show ?thesis
  proof (cases "GetArray (Some json) [''hits'', ''hits''] = []")
    case True
    with assms eq show ?thesis
      by (simp add: parse_search_results_def last_key_def)
  next
    case False
    with assms eq show ?thesis
      by (simp add: parse_search_results_def parse_hits_eq Let_def)
  qed
qed

section \<open>One turn of the producer's loop\<close>

lemma query_search_database_eq:
  "query_search_database config c w =
     ((case Client c (search_request config c) of
         None \<Rightarrow> Inl TransportFailed
       | Some resp \<Rightarrow> if StatusCode resp \<noteq> 200 then Inl (InvalidStatus (StatusCode resp)) else Inr (Body resp)),
      w\<lparr>requests := requests w @ [search_request config c]\<rparr>)"
  by (simp add: query_search_database_def http_get_def search_request_def Let_def split: option.splits)

lemma producer_query_fatal:
  "query_search_database config c w = (Inl e, w') \<Longrightarrow> producer M c config w = Some (Inl e, w')"
  by (subst producer.simps) simp

lemma producer_parse_fatal:
  "query_search_database config c w = (Inr q, w') \<Longrightarrow> parse_search_results M q c = Inl e
   \<Longrightarrow> producer M c config w = Some (Inl e, w')"
  by (subst producer.simps) simp

lemma producer_break:
  "query_search_database config c w = (Inr q, w') \<Longrightarrow> parse_search_results M q c = Inr ([], c')
   \<Longrightarrow> producer M c config w = Some (Inr c', w')"
  by (subst producer.simps) simp

lemma producer_loop:
  "query_search_database config c w = (Inr q, w') \<Longrightarrow> parse_search_results M q c = Inr (r, c')
   \<Longrightarrow> r \<noteq> []
   \<Longrightarrow> producer M c config w = producer M (c'\<lparr>Tasks := Tasks c' @ r\<rparr>) config w'"
  by (subst producer.simps) simp

lemma Execute_node_frame:
  "Execute_node (c\<lparr>Counter := n\<rparr>) node = Execute_node c node"
  "Execute_node (c\<lparr>Tasks := ts\<rparr>) node = Execute_node c node"
  by (induction node) (simp_all cong: map_cong)

lemma Execute_frame [simp]:
  "Execute t (c\<lparr>Counter := n\<rparr>) = Execute t c"
  "Execute t (c\<lparr>Tasks := ts\<rparr>) = Execute t c"
  by (simp_all add: Execute_def Execute_node_frame cong: map_cong)

lemma search_request_frame [simp]:
  "search_request config (c\<lparr>Counter := n\<rparr>) = search_request config c"
  "search_request config (c\<lparr>Tasks := ts\<rparr>) = search_request config c"
  by (simp_all add: search_request_def)

lemma window_after:
  assumes "index_ok (pre @ rem)"
  shows "window W (cursor_after pre) (pre @ rem) = take W rem"
proof (cases "pre = []")
  case True
  then show ?thesis by (simp add: window_def cursor_after_def)
next
  case False
  then have pre: "pre = butlast pre @ [last pre]" by simp
  let ?c = "sort_value (last pre)"
  from assms have srt: "sorted_wrt (<) (map sort_value pre @ map sort_value rem)"
    and ne: "list_all (\<lambda>d. sort_value d \<noteq> []) (pre @ rem)"
    by (simp_all add: index_ok_def)
  from ne False have cne: "?c \<noteq> []" by (simp add: list_all_iff)
  from srt have after: "\<forall>d \<in> set rem. ?c < sort_value d"
    using False by (auto simp: sorted_wrt_append)
  from srt have "sorted_wrt (<) (map sort_value pre)" by (simp add: sorted_wrt_append)
  then have "sorted_wrt (<) (map sort_value (butlast pre) @ [?c])"
    using pre by (metis list.simps(8,9) map_append)
  then have before: "\<forall>d \<in> set (butlast pre). sort_value d < ?c"
    by (auto simp: sorted_wrt_append)
  have "\<forall>d \<in> set pre. \<not> ?c < sort_value d"
  proof
    fix d assume "d \<in> set pre"
    then have "d \<in> set (butlast pre) \<or> d = last pre" using pre
      by (metis Un_iff empty_iff empty_set insert_iff list.simps(15) set_append)
    with before show "\<not> ?c < sort_value d" by auto
  qed
  then have "filter (\<lambda>d. ?c < sort_value d) pre = []" by (simp add: filter_empty_conv)
  moreover from after have "filter (\<lambda>d. ?c < sort_value d) rem = rem" by (simp add: filter_id_conv)
  ultimately show ?thesis using False cne by (simp add: window_def cursor_after_def)
qed

lemma cursor_after_known: "cursor_after pre \<in> set ([] # map sort_value (pre @ rem))"
  by (cases "pre = []") (simp_all add: cursor_after_def)

lemma producer_walk:
  assumes ok: "index_ok docs" and srv: "serves config c0 docs"
    and W: "0 < W" "W = nat (sint (Context.Size c0))"
  shows "docs = pre @ rem \<Longrightarrow>
    producer M (c0\<lparr>After := cursor_after pre, Counter := n, Tasks := ts\<rparr>) config w =
    Some (Inr (c0\<lparr>After := cursor_after docs, Counter := n + of_nat (length rem),
                 Tasks := ts @ map (\<lambda>v. M (strip_sort v)) rem\<rparr>),
          w\<lparr>requests := requests w @ map (\<lambda>c. search_request config (c0\<lparr>After := c\<rparr>)) (walk W pre rem)\<rparr>)"
proof (induction "length rem" arbitrary: pre rem n ts w rule: less_induct)
  case less
  let ?c = "c0\<lparr>After := cursor_after pre, Counter := n, Tasks := ts\<rparr>"
  let ?req = "search_request config (c0\<lparr>After := cursor_after pre\<rparr>)"
  let ?w' = "w\<lparr>requests := requests w @ [?req]\<rparr>"
  let ?page = "take W rem"
  have docs: "docs = pre @ rem" by (rule less.prems)
  have "answers config c0 docs (cursor_after pre)"
    using srv cursor_after_known [of pre rem] unfolding serves_def list_all_iff docs by blast
  then obtain resp json where
    resp: "Client c0 ?req = Some resp" "StatusCode resp = 200"
    and json: "Parser c0 (Body resp) = Some json" "Exists (Some json) [''hits'']"
    and arr: "GetArray (Some json) [''hits'', ''hits''] = window W (cursor_after pre) docs"
    unfolding answers_def W(2) by (auto split: option.splits)
  from arr ok have page: "GetArray (Some json) [''hits'', ''hits''] = ?page"
    unfolding docs by (simp add: window_after)
  have q: "query_search_database config ?c w = (Inr (Body resp), ?w')"
    using resp by (simp add: query_search_database_eq)
  have p: "parse_search_results M (Body resp) ?c =
      Inr (map (\<lambda>v. M (strip_sort v)) ?page,
           ?c\<lparr>After := last_key (After ?c) ?page, Counter := Counter ?c + of_nat (length ?page)\<rparr>)"
    using parse_search_results_eq [of ?c "Body resp" json M] json page by simp
  show ?case
  proof (cases "rem = []")
    case True
    have "walk W pre rem = [cursor_after pre]" using True by (simp add: walk.simps)
    moreover have "producer M ?c config w = Some (Inr (?c\<lparr>After := last_key (After ?c) ?page, Counter := Counter ?c + of_nat (length ?page)\<rparr>), ?w')"
      using q p True by (intro producer_break) simp_all
    ultimately show ?thesis using True docs by (simp add: last_key_def)
  next
    case False
    with W(1) have pne: "?page \<noteq> []" by simp
    from ok have "list_all (\<lambda>d. sort_value d \<noteq> []) ?page"
      unfolding docs index_ok_def list_all_iff by (auto dest: in_set_takeD)
    with pne have lk: "last_key (cursor_after pre) ?page = sort_value (last ?page)"
      by (rule last_key_all_keyed)
    from pne have ca: "cursor_after (pre @ ?page) = sort_value (last ?page)"
      by (simp add: cursor_after_def)
    have shorter: "length (drop W rem) < length rem" using False W(1) by simp
    have docs': "docs = (pre @ ?page) @ drop W rem" using docs by simp
    have "producer M ?c config w =
        producer M (c0\<lparr>After := cursor_after (pre @ ?page), Counter := n + of_nat (length ?page),
                        Tasks := ts @ map (\<lambda>v. M (strip_sort v)) ?page\<rparr>) config ?w'"
      using producer_loop [OF q p] pne lk ca by simp
    also have "\<dots> = Some (Inr (c0\<lparr>After := cursor_after docs,
          Counter := n + of_nat (length ?page) + of_nat (length (drop W rem)),
          Tasks := (ts @ map (\<lambda>v. M (strip_sort v)) ?page) @ map (\<lambda>v. M (strip_sort v)) (drop W rem)\<rparr>),
        ?w'\<lparr>requests := requests ?w' @ map (\<lambda>c. search_request config (c0\<lparr>After := c\<rparr>)) (walk W (pre @ ?page) (drop W rem))\<rparr>)"
      by (rule less.hyps [OF shorter docs'])
    also have "n + of_nat (length ?page) + of_nat (length (drop W rem)) = n + (of_nat (length rem) :: go_int)"
    proof -
      have "length ?page + length (drop W rem) = length rem" by simp
      then have "(of_nat (length ?page) + of_nat (length (drop W rem)) :: go_int) = of_nat (length rem)"
        by (metis of_nat_add)
      then show ?thesis by (simp add: add.assoc)
    qed
    also have "(ts @ map (\<lambda>v. M (strip_sort v)) ?page) @ map (\<lambda>v. M (strip_sort v)) (drop W rem)
        = ts @ map (\<lambda>v. M (strip_sort v)) rem"
      by (simp flip: map_append)
    finally have run: "producer M ?c config w =
        Some (Inr (c0\<lparr>After := cursor_after docs, Counter := n + of_nat (length rem),
                     Tasks := ts @ map (\<lambda>v. M (strip_sort v)) rem\<rparr>),
              ?w'\<lparr>requests := requests ?w' @ map (\<lambda>c. search_request config (c0\<lparr>After := c\<rparr>)) (walk W (pre @ ?page) (drop W rem))\<rparr>)" .
    have "walk W pre rem = cursor_after pre # walk W (pre @ ?page) (drop W rem)"
      using False W(1) by (subst walk.simps) simp
    with run show ?thesis by simp
  qed
qed

lemma sort_value_example_hit: "sort_value (example_hit i) = i"
  by (simp add: sort_value_def example_hit_def GetStringBytes_def Atoi_def is_digit_def)

lemma example_index_ok: "index_ok example_docs"
  by (simp add: index_ok_def example_docs_def sort_value_example_hit)

lemma example_serves: "serves example_config example_ctx example_docs"
  by code_simp

section \<open>The start of a run\<close>

lemma query_count_database_eq:
  "query_count_database config c w =
     ((case Client c (count_request config) of
         None \<Rightarrow> Inl TransportFailed
       | Some resp \<Rightarrow>
           if StatusCode resp \<noteq> 200 then Inl (InvalidStatus (StatusCode resp))
           else (case Parser c (Body resp) of
                   None \<Rightarrow> Inl ParseFailed
                 | Some json \<Rightarrow> Inr (if Exists (Some json) [''count''] then GetInt (Some json) [''count''] else 0))),
      w\<lparr>requests := requests w @ [count_request config]\<rparr>)"
  by (simp add: query_count_database_def http_get_def count_request_def Let_def split: option.splits)

lemma count_is_no_search: "uri (count_request config) \<noteq> uri (search_request config c)"
  by (simp add: count_request_def search_request_def)

lemma Execute_build_query_template:
  \<open>Execute build_query_template c =
     ''{'' @ ln @ tab @ ''"size": '' @ Itoa (Context.Size c) @ '','' @ ln @ tab @
     ''"query": {"bool": {"must": {"match_all": {}}}},'' @
     (if After c = [] then [] else ln @ tab @ ''"search_after": ["'' @ After c @ ''"],'') @
     ln @ tab @ ''"sort": ['' @ ln @ tab @ ''  { "_id": "asc" } '' @ ln @ tab @ '']'' @ ln @ ''}''\<close>
  by (simp add: Execute_def build_query_template_def)

lemma squeeze_append: "squeeze (xs @ ys) = squeeze xs @ squeeze ys"
  by (simp add: squeeze_def)

lemma main_starts:
  assumes "main config client parser w = Inr s0"
  shows "dump s0 = \<lparr>Size = Configuration.Size config, After = [], Counter = 0, Client = client,
                    Parser = parser, Template = build_query_template, Tasks = []\<rparr>
    \<and> producer_at s0 = Fetching \<and> chan s0 = [] \<and> \<not> closed s0 \<and> consumer_at s0 = Opening
    \<and> written s0 = [] \<and> exited s0 = None \<and> files (world s0) = files w"
  using assms
  by (auto simp: main_def query_count_database_eq Let_def split: prod.splits sum.splits if_splits option.splits)

lemma example_main:
  "main example_config example_client example_parser example_world = Inr example_start"
  by (simp add: main_def query_count_database_eq count_request_def example_config_def
      example_client_def example_parser_def example_count_def example_start_def example_ctx_def
      example_world_def Exists_def GetInt_def ParseInt64BestEffort_def Atoi_def is_digit_def)

lemma Itoa_2: "Itoa 2 = ''2''"
  by (simp add: Itoa_def nat_dec.simps digit_char_def)

section \<open>The windows of an index and the end of the loop\<close>

lemma windows_last: "last (windows W rem) = []"
proof (induction W rem rule: windows.induct)
  case (1 W rem)
  show ?case
  proof (cases "rem = [] \<or> W = 0")
    case True
    then show ?thesis by (subst windows.simps) auto
  next
    case False
    have ne: "windows W (drop W rem) \<noteq> []" by (subst windows.simps) simp
    from False 1 ne show ?thesis by (subst windows.simps) simp
  qed
qed

lemma windows_butlast:
  "0 < W \<Longrightarrow> p \<in> set (butlast (windows W rem)) \<Longrightarrow> p \<noteq> []"
proof (induction W rem rule: windows.induct)
  case (1 W rem)
  show ?case
  proof (cases "rem = []")
    case True
    with "1.prems" show ?thesis by (subst (asm) windows.simps) simp
  next
    case False
    have ne: "windows W (drop W rem) \<noteq> []" by (subst windows.simps) simp
    from "1.prems"(2) False "1.prems"(1) ne
    have "p = take W rem \<or> p \<in> set (butlast (windows W (drop W rem)))"
      by (subst (asm) windows.simps) auto
    then show ?thesis
    proof
      assume "p = take W rem"
      with False "1.prems"(1) show ?thesis by simp
    next
      assume "p \<in> set (butlast (windows W (drop W rem)))"
      with 1 False show ?thesis by simp
    qed
  qed
qed

lemma windows_length:
  "0 < W \<Longrightarrow> length (windows W rem) = (length rem + W - 1) div W + 1"
proof (induction W rem rule: windows.induct)
  case (1 W rem)
  show ?case
  proof (cases "rem = []")
    case True
    with "1.prems" show ?thesis by (subst windows.simps) simp
  next
    case False
    with 1 have ih: "length (windows W (drop W rem)) = (length (drop W rem) + W - 1) div W + 1"
      by simp
    have "(length rem + W - 1) div W = (length rem - W + W - 1) div W + 1"
    proof (cases "W \<le> length rem")
      case True
      then have "length rem + W - 1 = (length rem - W + W - 1) + W" using "1.prems" by simp
      then show ?thesis using "1.prems" by (metis div_add_self2 less_numeral_extra(3))
    next
      case f: False
      from False have l: "0 < length rem" by simp
      from l have "W * 1 \<le> length rem + W - 1" by arith
      moreover from f l have "length rem + W - 1 < W * Suc 1" by arith
      ultimately have a: "(length rem + W - 1) div W = 1" by (rule div_nat_eqI)
      from f have "length rem - W + W - 1 = W - 1" by simp
      with "1.prems" have b: "(length rem - W + W - 1) div W = 0" by simp
      from a b show ?thesis by simp
    qed
    with ih False "1.prems" show ?thesis by (subst windows.simps) simp
  qed
qed

lemma windows_concat: "0 < W \<Longrightarrow> concat (windows W rem) = rem"
proof (induction W rem rule: windows.induct)
  case (1 W rem)
  show ?case
  proof (cases "rem = []")
    case True
    then show ?thesis by (subst windows.simps) simp
  next
    case False
    with 1 show ?thesis by (subst windows.simps) simp
  qed
qed

lemma walk_known: "c \<in> set (walk W pre rem) \<Longrightarrow> c \<in> set ([] # map sort_value (pre @ rem))"
proof (induction W pre rem rule: walk.induct)
  case (1 W pre rem)
  show ?case
  proof (cases "rem = [] \<or> W = 0")
    case True
    with "1.prems" have "c = cursor_after pre" by (subst (asm) walk.simps) auto
    then show ?thesis using cursor_after_known [of pre rem] by simp
  next
    case False
    with "1.prems" have "c = cursor_after pre \<or> c \<in> set (walk W (pre @ take W rem) (drop W rem))"
      by (subst (asm) walk.simps) auto
    then show ?thesis
    proof
      assume "c = cursor_after pre"
      then show ?thesis using cursor_after_known [of pre rem] by simp
    next
      assume "c \<in> set (walk W (pre @ take W rem) (drop W rem))"
      with 1 False have "c \<in> set ([] # map sort_value ((pre @ take W rem) @ drop W rem))" by simp
      then show ?thesis by simp
    qed
  qed
qed

lemma walk_windows:
  "index_ok (pre @ rem) \<Longrightarrow> 0 < W \<Longrightarrow>
   map (\<lambda>c. window W c (pre @ rem)) (walk W pre rem) = windows W rem"
proof (induction W pre rem rule: walk.induct)
  case (1 W pre rem)
  have w: "window W (cursor_after pre) (pre @ rem) = take W rem"
    using "1.prems"(1) by (rule window_after)
  show ?case
  proof (cases "rem = []")
    case True
    with w show ?thesis by (subst walk.simps, subst windows.simps) simp
  next
    case False
    have "(pre @ take W rem) @ drop W rem = pre @ rem" by simp
    with 1 False have "map (\<lambda>c. window W c (pre @ rem)) (walk W (pre @ take W rem) (drop W rem))
        = windows W (drop W rem)"
      by (metis less_numeral_extra(3))
    with w False "1.prems"(2) show ?thesis by (subst walk.simps, subst windows.simps) simp
  qed
qed

lemma hits_of_served:
  assumes "serves config c0 docs" and "c \<in> set ([] # map sort_value docs)"
  shows "hits_of c0 (search_request config (c0\<lparr>After := c\<rparr>)) = window (nat (sint (Context.Size c0))) c docs"
proof -
  from assms have "answers config c0 docs c" unfolding serves_def list_all_iff by blast
  then show ?thesis
    by (auto simp: answers_def hits_of_def split: option.splits)
qed

lemma hits_of_cong: "Client a = Client b \<Longrightarrow> Parser a = Parser b \<Longrightarrow> hits_of a = hits_of b"
  by (rule ext) (simp add: hits_of_def split: option.splits)

lemma producer_turn:
  assumes "Client c (search_request config c) = Some resp" and "StatusCode resp = 200"
    and "Parser c (Body resp) = Some json" and "Exists (Some json) [''hits'']"
  shows "producer M c config w =
    (if hits_of c (search_request config c) = []
     then Some (Inr c, w\<lparr>requests := requests w @ [search_request config c]\<rparr>)
     else producer M
       (c\<lparr>After := last_key (After c) (hits_of c (search_request config c)),
          Counter := Counter c + of_nat (length (hits_of c (search_request config c))),
          Tasks := Tasks c @ map (\<lambda>v. M (strip_sort v)) (hits_of c (search_request config c))\<rparr>)
       config (w\<lparr>requests := requests w @ [search_request config c]\<rparr>))"
proof -
  let ?hits = "hits_of c (search_request config c)"
  have h: "?hits = GetArray (Some json) [''hits'', ''hits'']"
    using assms(1,3) by (simp add: hits_of_def)
  have q: "query_search_database config c w =
      (Inr (Body resp), w\<lparr>requests := requests w @ [search_request config c]\<rparr>)"
    using assms(1,2) by (simp add: query_search_database_eq)
  have p: "parse_search_results M (Body resp) c =
      Inr (map (\<lambda>v. M (strip_sort v)) ?hits,
           c\<lparr>After := last_key (After c) ?hits, Counter := Counter c + of_nat (length ?hits)\<rparr>)"
    unfolding h by (rule parse_search_results_eq [OF assms(3,4)])
  show ?thesis
  proof (cases "?hits = []")
    case True
    with p have "parse_search_results M (Body resp) c = Inr ([], c)"
      by (simp add: last_key_def)
    from producer_break [OF q this] True show ?thesis by simp
  next
    case False
    then have "map (\<lambda>v. M (strip_sort v)) ?hits \<noteq> []" by simp
    from producer_loop [OF q p this] False show ?thesis by simp
  qed
qed

lemma producer_fatal_cases:
  assumes "producer M c config w = Some (Inr c', w')"
  obtains resp json where "Client c (search_request config c) = Some resp" "StatusCode resp = 200"
    "Parser c (Body resp) = Some json" "Exists (Some json) [''hits'']"
proof -
  from assms have "\<exists>resp json. Client c (search_request config c) = Some resp \<and> StatusCode resp = 200
      \<and> Parser c (Body resp) = Some json \<and> Exists (Some json) [''hits'']"
    by (subst (asm) producer.simps)
      (auto simp: query_search_database_eq parse_search_results_def split: option.splits if_splits)
  with that show ?thesis by blast
qed

lemma producer_stop_rule:
  assumes "producer M c config w = Some y"
  shows "\<forall>c' w'. y = (Inr c', w') \<longrightarrow>
     Client c' = Client c \<and> Parser c' = Parser c \<and>
     (\<exists>reqs. requests w' = requests w @ reqs \<and> reqs \<noteq> [] \<and> hits_of c (last reqs) = []
        \<and> (\<forall>r \<in> set (butlast reqs). hits_of c r \<noteq> []))"
  using assms
proof (induction rule: producer.raw_induct [rotated, consumes 1, case_names turn])
  case (turn producer' M c config w y)
  let ?req = "search_request config c"
  let ?w1 = "w\<lparr>requests := requests w @ [?req]\<rparr>"
  let ?hits = "hits_of c ?req"
  let ?c2 = "c\<lparr>After := last_key (After c) ?hits, Counter := Counter c + of_nat (length ?hits),
               Tasks := Tasks c @ map (\<lambda>v. M (strip_sort v)) ?hits\<rparr>"
  show ?case
  proof (intro allI impI)
    fix c' w'
    assume y: "y = (Inr c', w')"
    from turn(2) y have "\<exists>resp json. Client c ?req = Some resp \<and> StatusCode resp = 200
        \<and> Parser c (Body resp) = Some json \<and> Exists (Some json) [''hits'']"
      by (auto simp: query_search_database_eq parse_search_results_def split: option.splits if_splits)
    then obtain resp json where r: "Client c ?req = Some resp" "StatusCode resp = 200"
      and j: "Parser c (Body resp) = Some json" "Exists (Some json) [''hits'']"
      by blast
    have h: "?hits = GetArray (Some json) [''hits'', ''hits'']"
      using r(1) j(1) by (simp add: hits_of_def)
    have q: "query_search_database config c w = (Inr (Body resp), ?w1)"
      using r by (simp add: query_search_database_eq)
    have p: "parse_search_results M (Body resp) c =
        Inr (map (\<lambda>v. M (strip_sort v)) ?hits,
             c\<lparr>After := last_key (After c) ?hits, Counter := Counter c + of_nat (length ?hits)\<rparr>)"
      unfolding h by (rule parse_search_results_eq [OF j])
    show "Client c' = Client c \<and> Parser c' = Parser c \<and>
       (\<exists>reqs. requests w' = requests w @ reqs \<and> reqs \<noteq> [] \<and> hits_of c (last reqs) = []
          \<and> (\<forall>r \<in> set (butlast reqs). hits_of c r \<noteq> []))"
    proof (cases "?hits = []")
      case True
      with turn(2) q p y have "c' = c" "w' = ?w1" by (auto simp: last_key_def)
      with True have "Client c' = Client c \<and> Parser c' = Parser c \<and>
          requests w' = requests w @ [?req] \<and> [?req] \<noteq> [] \<and> hits_of c (last [?req]) = []
          \<and> (\<forall>r \<in> set (butlast [?req]). hits_of c r \<noteq> [])"
        by simp
      then show ?thesis by blast
    next
      case False
      with turn(2) q p y have "producer' M ?c2 config ?w1 = Some (Inr c', w')" by simp
      from turn(1) [OF this] obtain reqs where
        cp: "Client c' = Client ?c2" "Parser c' = Parser ?c2"
        and rq: "requests w' = requests ?w1 @ reqs" "reqs \<noteq> []" "hits_of ?c2 (last reqs) = []"
          "\<forall>r \<in> set (butlast reqs). hits_of ?c2 r \<noteq> []"
        by blast
      have same: "hits_of ?c2 = hits_of c" by (rule hits_of_cong) simp_all
      from cp rq False have "Client c' = Client c \<and> Parser c' = Parser c \<and>
          requests w' = requests w @ (?req # reqs) \<and> ?req # reqs \<noteq> []
          \<and> hits_of c (last (?req # reqs)) = []
          \<and> (\<forall>r \<in> set (butlast (?req # reqs)). hits_of c r \<noteq> [])"
        unfolding same by simp
      then show ?thesis by blast
    qed
  qed
qed

lemma sint_of_nat_small:
  assumes "n < 2 ^ 63"
  shows "sint (of_nat n :: go_int) = int n"
proof -
  have "sint (word_of_int (int n) :: go_int) = signed_take_bit 63 (int n)"
    by (rule sint_sbintrunc' [where 'a = 64, simplified])
  also have "\<dots> = int n"
  proof (rule signed_take_bit_int_eq_self)
    show "- (2 ^ 63) \<le> int n" by (rule order_trans [of _ 0]) simp_all
    from assms have "int n < int (2 ^ 63)" by (rule iffD2 [OF of_nat_less_iff])
    then show "int n < 2 ^ 63" by simp
  qed
  finally show ?thesis by simp
qed

lemma example_windows:
  "windows 2 example_docs = [[example_hit ''a'', example_hit ''b''], [example_hit ''c''], []]"
  by (simp add: example_docs_def windows.simps)

lemma example_records:
  \<open>map (\<lambda>v. MarshalTo_plain (strip_sort v)) example_docs = [''{"_id":"a"}'', ''{"_id":"b"}'', ''{"_id":"c"}'']\<close>
  by (simp add: example_docs_def example_hit_def strip_sort_def Exists_def)

section \<open>The record of a hit and the line written for it\<close>

lemma foldl_Write_record:
  "foldl Write_record out rs = out @ concat (map (\<lambda>r. r @ [CHR 0x0A]) rs)"
  by (induction rs arbitrary: out) (simp_all add: Write_record_def ln_def)

lemma strip_sort_shape:
  assumes "Exists (Some h) [''sort'']"
  shows "\<exists>pre srt post. h = TypeObject (pre @ (''sort'', srt) # post) \<and> ''sort'' \<notin> fst ` set pre
      \<and> strip_sort h = TypeObject (pre @ post)"
proof -
  from assms obtain kvs x where h: "h = TypeObject kvs" and x: "Object_Get kvs ''sort'' = Some x"
    unfolding Exists_sort_cases by blast
  from Object_Get_split [OF x] obtain pre post where
    "kvs = pre @ (''sort'', x) # post" "''sort'' \<notin> fst ` set pre" "Object_Del kvs ''sort'' = pre @ post"
    by blast
  with h assms show ?thesis by (auto simp: strip_sort_def)
qed

lemma strip_sort_other:
  "k \<noteq> ''sort'' \<Longrightarrow> Get (Some (strip_sort (TypeObject kvs))) [k] = Get (Some (TypeObject kvs)) [k]"
  by (simp add: strip_sort_def Object_Del_other)

lemma strip_sort_gone:
  "distinct (map fst kvs) \<Longrightarrow> \<not> Exists (Some (strip_sort (TypeObject kvs))) [''sort'']"
  by (auto simp: strip_sort_def Exists_def Object_Del_distinct)

section \<open>The running process: what every run keeps\<close>

lemma query_search_database_files:
  "query_search_database config c w = (x, w') \<Longrightarrow> files w' = files w"
  by (auto simp: query_search_database_eq)

lemma parse_search_results_Tasks:
  "parse_search_results M q c = Inr (r, c') \<Longrightarrow> Tasks c' = Tasks c"
  by (auto simp: parse_search_results_def parse_hits_eq Let_def split: option.splits if_splits)

lemma fifo_inv_producer_step:
  assumes "producer_step M config cap s s'" and "fifo_inv Z config s"
  shows "fifo_inv Z config s'"
  using assms
proof (cases rule: producer_step.cases)
  case (fetch q w' r ctx')
  with assms(2) parse_search_results_Tasks [OF fetch(6)] show ?thesis
    by (auto simp: fifo_inv_def)
next
  case (query_fatal e w' w'' left)
  with assms(2) show ?thesis by (auto simp: fifo_inv_def split: if_splits)
next
  case (parse_fatal q w' e w'' left)
  with assms(2) show ?thesis by (auto simp: fifo_inv_def split: if_splits)
next
  case (send x xs n)
  with assms(2) show ?thesis by (auto simp: fifo_inv_def)
next
  case (hand_over x xs n)
  with assms(2) show ?thesis by (auto simp: fifo_inv_def Write_record_def)
next
  case (next_window n)
  with assms(2) show ?thesis by (auto simp: fifo_inv_def)
next
  case break
  with assms(2) show ?thesis by (auto simp: fifo_inv_def)
next
  case close
  with assms(2) show ?thesis by (auto simp: fifo_inv_def)
qed

lemma fifo_inv_consumer_step:
  assumes "consumer_step Z config s s'" and "fifo_inv Z config s"
  shows "fifo_inv Z config s'"
  using assms
proof (cases rule: consumer_step.cases)
  case open_fatal
  with assms(2) show ?thesis by (auto simp: fifo_inv_def)
next
  case open_created
  with assms(2) show ?thesis by (auto simp: fifo_inv_def)
next
  case (receive x rest)
  with assms(2) show ?thesis by (auto simp: fifo_inv_def Write_record_def)
next
  case shutdown
  with assms(2) show ?thesis by (auto simp: fifo_inv_def)
qed

lemma fifo_inv_reaches:
  assumes "reaches M Z config cap s0 s" and "fifo_inv Z config s0"
  shows "fifo_inv Z config s"
  using assms unfolding reaches_def
  by (induction rule: rtranclp_induct)
    (auto simp: step_def intro: fifo_inv_producer_step fifo_inv_consumer_step)

lemma fifo_inv_main:
  "main config client parser w = Inr s0 \<Longrightarrow> fifo_inv Z config s0"
  by (drule main_starts) (simp add: fifo_inv_def)

section \<open>The producer goroutine and the producer's loop\<close>

lemma producer_unfold:
  "producer M c config v =
     (case Client c (search_request config c) of
        None \<Rightarrow> Some (Inl TransportFailed, v\<lparr>requests := requests v @ [search_request config c]\<rparr>)
      | Some resp \<Rightarrow>
          if StatusCode resp \<noteq> 200
          then Some (Inl (InvalidStatus (StatusCode resp)), v\<lparr>requests := requests v @ [search_request config c]\<rparr>)
          else (case parse_search_results M (Body resp) c of
                  Inl e \<Rightarrow> Some (Inl e, v\<lparr>requests := requests v @ [search_request config c]\<rparr>)
                | Inr (r, c') \<Rightarrow>
                    if r = [] then Some (Inr c', v\<lparr>requests := requests v @ [search_request config c]\<rparr>)
                    else producer M (c'\<lparr>Tasks := Tasks c' @ r\<rparr>) config
                           (v\<lparr>requests := requests v @ [search_request config c]\<rparr>)))"
  by (subst producer.simps)
    (simp add: query_search_database_eq split: option.splits sum.splits prod.splits)

lemma producer_world_aux:
  assumes "producer M c config w = Some y"
  shows "\<exists>reqs. requests (snd y) = requests w @ reqs \<and> files (snd y) = files w
      \<and> (\<forall>v. producer M c config v = Some (fst y, v\<lparr>requests := requests v @ reqs\<rparr>))"
  using assms
proof (induction rule: producer.raw_induct [rotated, consumes 1, case_names turn])
  case (turn producer' M c config w y)
  let ?req = "search_request config c"
  let ?w1 = "w\<lparr>requests := requests w @ [?req]\<rparr>"
  note body = turn(2) [unfolded query_search_database_eq]
  have one: "\<exists>reqs. requests (snd y) = requests w @ reqs \<and> files (snd y) = files w
      \<and> (\<forall>v. producer M c config v = Some (fst y, v\<lparr>requests := requests v @ reqs\<rparr>))"
    if y: "y = (x, ?w1)" and all: "\<And>v. producer M c config v = Some (x, v\<lparr>requests := requests v @ [?req]\<rparr>)"
    for x
  proof -
    from y all have "requests (snd y) = requests w @ [?req] \<and> files (snd y) = files w
      \<and> (\<forall>v. producer M c config v = Some (fst y, v\<lparr>requests := requests v @ [?req]\<rparr>))"
      by simp
    then show ?thesis by blast
  qed
  show ?case
  proof (cases "Client c ?req")
    case None
    with body have "y = (Inl TransportFailed, ?w1)" by simp
    moreover have "producer M c config v = Some (Inl TransportFailed, v\<lparr>requests := requests v @ [?req]\<rparr>)" for v
      using None by (subst producer_unfold) simp
    ultimately show ?thesis by (rule one)
  next
    case (Some resp)
    show ?thesis
    proof (cases "StatusCode resp \<noteq> 200")
      case True
      with body Some have "y = (Inl (InvalidStatus (StatusCode resp)), ?w1)" by simp
      moreover have "producer M c config v =
          Some (Inl (InvalidStatus (StatusCode resp)), v\<lparr>requests := requests v @ [?req]\<rparr>)" for v
        using Some True by (subst producer_unfold) simp
      ultimately show ?thesis by (rule one)
    next
      case False
      show ?thesis
      proof (cases "parse_search_results M (Body resp) c")
        case (Inl e)
        with body Some False have "y = (Inl e, ?w1)" by simp
        moreover have "producer M c config v = Some (Inl e, v\<lparr>requests := requests v @ [?req]\<rparr>)" for v
          using Some False Inl by (subst producer_unfold) simp
        ultimately show ?thesis by (rule one)
      next
        case (Inr rc)
        obtain r c' where rc: "rc = (r, c')" by (cases rc)
        show ?thesis
        proof (cases "r = []")
          case True
          with body Some False Inr rc have "y = (Inr c', ?w1)" by simp
          moreover have "producer M c config v = Some (Inr c', v\<lparr>requests := requests v @ [?req]\<rparr>)" for v
            using Some False Inr rc True by (subst producer_unfold) simp
          ultimately show ?thesis by (rule one)
        next
          case ne: False
          let ?c2 = "c'\<lparr>Tasks := Tasks c' @ r\<rparr>"
          from body Some False Inr rc ne have "producer' M ?c2 config ?w1 = Some y" by simp
          from turn(1) [OF this] obtain reqs where
            a: "requests (snd y) = requests ?w1 @ reqs" "files (snd y) = files ?w1"
            and b: "\<And>v. producer M ?c2 config v = Some (fst y, v\<lparr>requests := requests v @ reqs\<rparr>)"
            by blast
          have "producer M c config v = Some (fst y, v\<lparr>requests := requests v @ (?req # reqs)\<rparr>)" for v
            using Some False Inr rc ne b [of "v\<lparr>requests := requests v @ [?req]\<rparr>"]
            by (subst producer_unfold) simp
          with a have "requests (snd y) = requests w @ (?req # reqs) \<and> files (snd y) = files w
            \<and> (\<forall>v. producer M c config v = Some (fst y, v\<lparr>requests := requests v @ (?req # reqs)\<rparr>))"
            by simp
          then show ?thesis by blast
        qed
      qed
    qed
  qed
qed

lemma outcome_world: "map_option fst (producer M c config w) = outcome M c config"
proof (cases "producer M c config w")
  case None
  have "producer M c config \<lparr>requests = [], files = Map.empty\<rparr> = None"
  proof (rule ccontr)
    assume "producer M c config \<lparr>requests = [], files = Map.empty\<rparr> \<noteq> None"
    then obtain y where "producer M c config \<lparr>requests = [], files = Map.empty\<rparr> = Some y" by blast
    from producer_world_aux [OF this] None show False by auto
  qed
  with None show ?thesis by (simp add: outcome_def)
next
  case (Some y)
  from producer_world_aux [OF this] show ?thesis
    using Some by (auto simp: outcome_def)
qed

lemma outcome_turn:
  assumes "query_search_database config c w = (Inr q, w')" and "parse_search_results M q c = Inr (r, c')"
  shows "outcome M c config = (if r = [] then Some (Inr c') else outcome M (c'\<lparr>Tasks := Tasks c' @ r\<rparr>) config)"
proof -
  have "outcome M c config = map_option fst (producer M c config w)"
    by (simp add: outcome_world)
  also have "\<dots> = (if r = [] then Some (Inr c') else map_option fst (producer M (c'\<lparr>Tasks := Tasks c' @ r\<rparr>) config w'))"
    using assms by (subst producer.simps) simp
  finally show ?thesis by (simp add: outcome_world)
qed

lemma producer_inv_producer_step:
  assumes "producer_step M config cap s s'" and "producer_inv M config target s"
  shows "producer_inv M config target s'"
  using assms
proof (cases rule: producer_step.cases)
  case (fetch q w' r ctx')
  from outcome_turn [OF fetch(5,6)] assms(2) fetch(1,4) show ?thesis
    by (auto simp: producer_inv_def)
next
  case (query_fatal e w' w'' left)
  with assms(2) show ?thesis by (simp add: producer_inv_def)
next
  case (parse_fatal q w' e w'' left)
  with assms(2) show ?thesis by (simp add: producer_inv_def)
next
  case (send x xs n)
  with assms(2) show ?thesis by (auto simp: producer_inv_def split: if_splits)
next
  case (hand_over x xs n)
  with assms(2) show ?thesis by (auto simp: producer_inv_def split: if_splits)
next
  case (next_window n)
  with assms(2) show ?thesis by (simp add: producer_inv_def)
next
  case break
  with assms(2) show ?thesis by (simp add: producer_inv_def)
next
  case close
  with assms(2) show ?thesis by (simp add: producer_inv_def)
qed

lemma producer_inv_consumer_step:
  assumes "consumer_step Z config s s'" and "producer_inv M config target s"
  shows "producer_inv M config target s'"
  using assms by (cases rule: consumer_step.cases) (auto simp: producer_inv_def split: producer_pc.splits)

lemma producer_inv_reaches:
  assumes "reaches M Z config cap s0 s" and "producer_inv M config target s0"
  shows "producer_inv M config target s"
  using assms unfolding reaches_def
  by (induction rule: rtranclp_induct)
    (auto simp: step_def intro: producer_inv_producer_step producer_inv_consumer_step)

lemma producer_inv_main:
  "main config client parser w = Inr s0 \<Longrightarrow> producer_inv M config (outcome M (dump s0) config) s0"
  by (drule main_starts) (simp add: producer_inv_def)

text \<open>A completed run: the file and the records, and the producer's loop behind them.\<close>

lemma completed_run:
  assumes "main config client parser w = Inr s0" and "reaches M Z config cap s0 s"
    and "consumer_at s = ConsumerDone"
  shows "files (world s) (File config) = Some (sink_bytes Z config (concat (map (\<lambda>r. r @ ln) (Tasks (dump s)))))"
    and "chan s = []" and "closed s" and "exited s = None"
    and "outcome M (dump s0) config = Some (Inr (dump s))"
proof -
  from fifo_inv_reaches [OF assms(2) fifo_inv_main [OF assms(1)]] assms(3)
  have f: "written s @ concat (map (\<lambda>r. r @ ln) (chan s)) = concat (map (\<lambda>r. r @ ln) (Tasks (dump s)))"
    "chan s = []" "closed s" "exited s = None" "producer_at s = ProducerDone"
    "files (world s) (File config) = Some (sink_bytes Z config (written s))"
    by (auto simp: fifo_inv_def)
  from f show "files (world s) (File config) = Some (sink_bytes Z config (concat (map (\<lambda>r. r @ ln) (Tasks (dump s)))))"
    by simp
  from f show "chan s = []" "closed s" "exited s = None" by simp_all
  from producer_inv_reaches [OF assms(2) producer_inv_main [OF assms(1)]] f(5)
  show "outcome M (dump s0) config = Some (Inr (dump s))"
    by (simp add: producer_inv_def)
qed

lemma outcome_index:
  assumes "main config client parser w = Inr s0"
    and "index_ok docs" and "serves config (dump s0) docs"
    and "0 < W" and "W = nat (sint (Configuration.Size config))"
  shows "\<exists>c'. outcome M (dump s0) config = Some (Inr c') \<and> Tasks c' = map (\<lambda>v. M (strip_sort v)) docs
      \<and> Counter c' = of_nat (length docs)"
proof -
  let ?c0 = "dump s0"
  from main_starts [OF assms(1)] have d: "?c0 = \<lparr>Size = Configuration.Size config, After = [],
      Counter = 0, Client = client, Parser = parser, Template = build_query_template, Tasks = []\<rparr>"
    by simp
  have sz: "W = nat (sint (Context.Size ?c0))" using assms(5) d by simp
  have c0: "?c0\<lparr>After := cursor_after [], Counter := 0, Tasks := []\<rparr> = ?c0"
    by (simp add: d cursor_after_def)
  from producer_walk [OF assms(2,3,4) sz, where pre = "[]" and rem = docs and M = M and n = 0
      and ts = "[]" and w = "\<lparr>requests = [], files = Map.empty\<rparr>"]
  show ?thesis unfolding c0 outcome_def by simp
qed

section \<open>A run that completes, for every capacity\<close>

lemma reaches_refl: "reaches M Z config cap s s"
  by (simp add: reaches_def)

lemma reaches_trans:
  "reaches M Z config cap s t \<Longrightarrow> reaches M Z config cap t u \<Longrightarrow> reaches M Z config cap s u"
  by (simp add: reaches_def)

lemma reaches_producer_step:
  "producer_step M config cap s t \<Longrightarrow> reaches M Z config cap t u \<Longrightarrow> reaches M Z config cap s u"
  unfolding reaches_def by (rule converse_rtranclp_into_rtranclp) (simp_all add: step_def)

lemma reaches_consumer_step:
  "consumer_step Z config s t \<Longrightarrow> reaches M Z config cap t u \<Longrightarrow> reaches M Z config cap s u"
  unfolding reaches_def by (rule converse_rtranclp_into_rtranclp) (simp_all add: step_def)

lemma hand_over_all:
  "exited s = None \<Longrightarrow> consumer_at s = Receiving \<Longrightarrow> chan s = [] \<Longrightarrow> producer_at s = Sending xs n
   \<Longrightarrow> \<exists>t. reaches M Z config cap s t \<and> exited t = None \<and> consumer_at t = Receiving \<and> chan t = []
        \<and> producer_at t = Sending [] n \<and> closed t = closed s
        \<and> dump t = (dump s)\<lparr>Tasks := Tasks (dump s) @ xs\<rparr>"
proof (induction xs arbitrary: s)
  case Nil
  then have "reaches M Z config cap s s \<and> exited s = None \<and> consumer_at s = Receiving \<and> chan s = []
        \<and> producer_at s = Sending [] n \<and> closed s = closed s
        \<and> dump s = (dump s)\<lparr>Tasks := Tasks (dump s) @ []\<rparr>"
    by (simp add: reaches_refl)
  then show ?case by blast
next
  case (Cons x xs)
  let ?s1 = "s\<lparr>dump := (dump s)\<lparr>Tasks := Tasks (dump s) @ [x]\<rparr>, producer_at := Sending xs n,
              written := Write_record (written s) x\<rparr>"
  have st: "producer_step M config cap s ?s1"
    using Cons.prems by (intro producer_step.hand_over) simp_all
  have "exited ?s1 = None" "consumer_at ?s1 = Receiving" "chan ?s1 = []" "producer_at ?s1 = Sending xs n"
    using Cons.prems by simp_all
  from Cons.IH [OF this] obtain t where
    t: "reaches M Z config cap ?s1 t" "exited t = None" "consumer_at t = Receiving" "chan t = []"
      "producer_at t = Sending [] n" "closed t = closed ?s1"
      "dump t = (dump ?s1)\<lparr>Tasks := Tasks (dump ?s1) @ xs\<rparr>"
    by blast
  from reaches_producer_step [OF st t(1)] t
  have "reaches M Z config cap s t \<and> exited t = None \<and> consumer_at t = Receiving \<and> chan t = []
        \<and> producer_at t = Sending [] n \<and> closed t = closed s
        \<and> dump t = (dump s)\<lparr>Tasks := Tasks (dump s) @ x # xs\<rparr>"
    by simp
  then show ?case by blast
qed

lemma served_turn:
  assumes ok: "index_ok docs" and srv: "serves config c0 docs"
    and W: "0 < W" "W = nat (sint (Context.Size c0))" and docs: "docs = pre @ rem"
  shows "\<exists>q. (\<forall>w. query_search_database config (c0\<lparr>After := cursor_after pre, Counter := n, Tasks := ts\<rparr>) w
            = (Inr q, w\<lparr>requests := requests w @ [search_request config (c0\<lparr>After := cursor_after pre\<rparr>)]\<rparr>))
      \<and> parse_search_results M q (c0\<lparr>After := cursor_after pre, Counter := n, Tasks := ts\<rparr>)
          = Inr (map (\<lambda>v. M (strip_sort v)) (take W rem),
                 c0\<lparr>After := cursor_after (pre @ take W rem), Counter := n + of_nat (length (take W rem)),
                    Tasks := ts\<rparr>)"
proof -
  let ?c = "c0\<lparr>After := cursor_after pre, Counter := n, Tasks := ts\<rparr>"
  let ?req = "search_request config (c0\<lparr>After := cursor_after pre\<rparr>)"
  let ?page = "take W rem"
  have "answers config c0 docs (cursor_after pre)"
    using srv cursor_after_known [of pre rem] unfolding serves_def list_all_iff docs by blast
  then obtain resp json where
    resp: "Client c0 ?req = Some resp" "StatusCode resp = 200"
    and json: "Parser c0 (Body resp) = Some json" "Exists (Some json) [''hits'']"
    and arr: "GetArray (Some json) [''hits'', ''hits''] = window W (cursor_after pre) docs"
    unfolding answers_def W(2) by (auto split: option.splits)
  from arr ok have page: "GetArray (Some json) [''hits'', ''hits''] = ?page"
    unfolding docs by (simp add: window_after)
  have q: "query_search_database config ?c w = (Inr (Body resp), w\<lparr>requests := requests w @ [?req]\<rparr>)" for w
    using resp by (simp add: query_search_database_eq)
  have lk: "last_key (cursor_after pre) ?page = cursor_after (pre @ ?page)"
  proof (cases "?page = []")
    case True
    show ?thesis unfolding True by (simp add: last_key_def)
  next
    case False
    from ok have "list_all (\<lambda>d. sort_value d \<noteq> []) ?page"
      unfolding docs index_ok_def list_all_iff by (auto dest: in_set_takeD)
    with False have "last_key (cursor_after pre) ?page = sort_value (last ?page)"
      by (rule last_key_all_keyed)
    with False show ?thesis by (simp add: cursor_after_def)
  qed
  have p: "parse_search_results M (Body resp) ?c =
      Inr (map (\<lambda>v. M (strip_sort v)) ?page,
           c0\<lparr>After := cursor_after (pre @ ?page), Counter := n + of_nat (length ?page), Tasks := ts\<rparr>)"
    using parse_search_results_eq [of ?c "Body resp" json M] json page lk by simp
  from q p show ?thesis by blast
qed

lemma walk_run:
  assumes ok: "index_ok docs" and srv: "serves config c0 docs"
    and W: "0 < W" "W = nat (sint (Context.Size c0))"
  shows "docs = pre @ rem \<Longrightarrow> exited s = None \<Longrightarrow> consumer_at s = Receiving \<Longrightarrow> chan s = []
    \<Longrightarrow> producer_at s = Fetching \<Longrightarrow> dump s = c0\<lparr>After := cursor_after pre, Counter := n, Tasks := ts\<rparr>
    \<Longrightarrow> \<exists>t. reaches M Z config cap s t \<and> exited t = None \<and> consumer_at t = Receiving \<and> chan t = []
          \<and> producer_at t = ProducerDone \<and> closed t = closed s"
proof (induction "length rem" arbitrary: pre rem n ts s rule: less_induct)
  case less
  let ?page = "take W rem"
  let ?r = "map (\<lambda>v. M (strip_sort v)) ?page"
  let ?c1 = "c0\<lparr>After := cursor_after (pre @ ?page), Counter := n + of_nat (length ?page), Tasks := ts\<rparr>"
  from served_turn [OF ok srv W less.prems(1), where n = n and ts = ts and M = M] obtain q where
    q: "query_search_database config (dump s) (world s)
        = (Inr q, (world s)\<lparr>requests := requests (world s) @ [search_request config (c0\<lparr>After := cursor_after pre\<rparr>)]\<rparr>)"
    and p: "parse_search_results M q (dump s) = Inr (?r, ?c1)"
    unfolding less.prems(6) by blast
  let ?s1 = "s\<lparr>dump := ?c1,
      world := (world s)\<lparr>requests := requests (world s) @ [search_request config (c0\<lparr>After := cursor_after pre\<rparr>)]\<rparr>,
      producer_at := Sending ?r (length ?r)\<rparr>"
  have st1: "producer_step M config cap s ?s1"
    using less.prems(2,3,5) q p by (intro producer_step.fetch) simp_all
  have "exited ?s1 = None" "consumer_at ?s1 = Receiving" "chan ?s1 = []"
    "producer_at ?s1 = Sending ?r (length ?r)"
    using less.prems by simp_all
  from hand_over_all [OF this, where M = M and Z = Z and config = config and cap = cap] obtain s2 where
    s2: "reaches M Z config cap ?s1 s2" "exited s2 = None" "consumer_at s2 = Receiving" "chan s2 = []"
      "producer_at s2 = Sending [] (length ?r)" "closed s2 = closed ?s1"
      "dump s2 = (dump ?s1)\<lparr>Tasks := Tasks (dump ?s1) @ ?r\<rparr>"
    by blast
  have to2: "reaches M Z config cap s s2"
    by (rule reaches_producer_step [OF st1 s2(1)])
  show ?case
  proof (cases "rem = []")
    case True
    let ?t = "s2\<lparr>producer_at := ProducerDone\<rparr>"
    have "producer_step M config cap s2 ?t"
      using s2 True by (intro producer_step.break) simp_all
    from reaches_trans [OF to2 reaches_producer_step [OF this reaches_refl]] s2
    have "reaches M Z config cap s ?t \<and> exited ?t = None \<and> consumer_at ?t = Receiving \<and> chan ?t = []
          \<and> producer_at ?t = ProducerDone \<and> closed ?t = closed s"
      by simp
    then show ?thesis by blast
  next
    case False
    with W(1) have ne: "length ?r \<noteq> 0" by simp
    let ?s3 = "s2\<lparr>producer_at := Fetching\<rparr>"
    have st3: "producer_step M config cap s2 ?s3"
      using s2(2,3,5) ne by (intro producer_step.next_window [where n = "length ?r"]) simp_all
    have shorter: "length (drop W rem) < length rem" using False W(1) by simp
    have docs': "docs = (pre @ ?page) @ drop W rem" using less.prems(1) by simp
    have "exited ?s3 = None" "consumer_at ?s3 = Receiving" "chan ?s3 = []" "producer_at ?s3 = Fetching"
      "dump ?s3 = c0\<lparr>After := cursor_after (pre @ ?page), Counter := n + of_nat (length ?page), Tasks := ts @ ?r\<rparr>"
      using s2 by simp_all
    from less.hyps [OF shorter docs' this] obtain t where
      t: "reaches M Z config cap ?s3 t" "exited t = None" "consumer_at t = Receiving" "chan t = []"
        "producer_at t = ProducerDone" "closed t = closed ?s3"
      by blast
    from reaches_trans [OF to2 reaches_producer_step [OF st3 t(1)]] t s2
    have "reaches M Z config cap s t \<and> exited t = None \<and> consumer_at t = Receiving \<and> chan t = []
          \<and> producer_at t = ProducerDone \<and> closed t = closed s"
      by simp
    then show ?thesis by blast
  qed
qed

lemma run_exists:
  assumes "main config client parser w = Inr s0"
    and "index_ok docs" and "serves config (dump s0) docs"
    and "0 < W" and "W = nat (sint (Configuration.Size config))"
    and "File config \<notin> dom (files w)"
  shows "\<exists>s. reaches M Z config cap s0 s \<and> consumer_at s = ConsumerDone"
proof -
  note m = main_starts [OF assms(1)]
  let ?c0 = "dump s0"
  from m have d: "?c0 = \<lparr>Size = Configuration.Size config, After = [],
      Counter = 0, Client = client, Parser = parser, Template = build_query_template, Tasks = []\<rparr>"
    by simp
  have sz: "W = nat (sint (Context.Size ?c0))" using assms(5) d by simp
  have c0: "?c0 = ?c0\<lparr>After := cursor_after [], Counter := 0, Tasks := []\<rparr>"
    by (simp add: d cursor_after_def)
  let ?s1 = "s0\<lparr>world := (world s0)\<lparr>files := (files (world s0))(File config \<mapsto> [])\<rparr>,
                consumer_at := Receiving\<rparr>"
  have st1: "consumer_step Z config s0 ?s1"
    using m assms(6) by (intro consumer_step.open_created) simp_all
  have "docs = [] @ docs" "exited ?s1 = None" "consumer_at ?s1 = Receiving" "chan ?s1 = []"
    "producer_at ?s1 = Fetching" "dump ?s1 = ?c0\<lparr>After := cursor_after [], Counter := 0, Tasks := []\<rparr>"
    using m c0 by simp_all
  from walk_run [OF assms(2,3,4) sz this, where M = M and Z = Z and cap = cap] obtain s2 where
    s2: "reaches M Z config cap ?s1 s2" "exited s2 = None" "consumer_at s2 = Receiving" "chan s2 = []"
      "producer_at s2 = ProducerDone" "closed s2 = closed ?s1"
    by blast
  let ?s3 = "s2\<lparr>closed := True\<rparr>"
  have st3: "producer_step M config cap s2 ?s3"
    using s2 m by (intro producer_step.close) simp_all
  let ?s4 = "?s3\<lparr>world := (world ?s3)\<lparr>files := (files (world ?s3))(File config \<mapsto> sink_bytes Z config (written ?s3))\<rparr>,
                 consumer_at := ConsumerDone\<rparr>"
  have st4: "consumer_step Z config ?s3 ?s4"
    using s2 by (intro consumer_step.shutdown) simp_all
  have "reaches M Z config cap s0 ?s4"
    by (rule reaches_consumer_step [OF st1 reaches_trans [OF s2(1)
          reaches_producer_step [OF st3 reaches_consumer_step [OF st4 reaches_refl]]]])
  moreover have "consumer_at ?s4 = ConsumerDone" by simp
  ultimately show ?thesis by blast
qed

section \<open>A run that finds the output file in place, and how a run can end\<close>

lemma blocked_producer_step:
  assumes "producer_step M config cap s s'"
    and "files (world s) = F \<and> written s = [] \<and> consumer_at s = Opening"
  shows "files (world s') = F \<and> written s' = [] \<and> consumer_at s' = Opening"
  using assms
proof (cases rule: producer_step.cases)
  case (fetch q w' r ctx')
  with assms(2) query_search_database_files [OF fetch(5)] show ?thesis by simp
next
  case (query_fatal e w' w'' left)
  with assms(2) query_search_database_files [OF query_fatal(5)] show ?thesis by simp
next
  case (parse_fatal q w' e w'' left)
  with assms(2) query_search_database_files [OF parse_fatal(5)] show ?thesis by simp
qed (use assms(2) in simp_all)

lemma blocked_consumer_step:
  assumes "consumer_step Z config s s'" and "File config \<in> dom F"
    and "files (world s) = F \<and> written s = [] \<and> consumer_at s = Opening"
  shows "s' = s\<lparr>exited := Some OpenFailed\<rparr>"
  using assms by (cases rule: consumer_step.cases) auto

lemma blocked_reaches:
  assumes "reaches M Z config cap s0 t" and "File config \<in> dom F"
    and "files (world s0) = F \<and> written s0 = [] \<and> consumer_at s0 = Opening"
  shows "files (world t) = F \<and> written t = [] \<and> consumer_at t = Opening"
  using assms(1) unfolding reaches_def
proof (induction rule: rtranclp_induct)
  case base
  show ?case by (rule assms(3))
next
  case (step t u)
  from step(2) show ?case unfolding step_def
  proof
    assume "producer_step M config cap t u"
    from blocked_producer_step [OF this step(3)] show ?thesis .
  next
    assume "consumer_step Z config t u"
    from blocked_consumer_step [OF this assms(2) step(3)] step(3) show ?thesis by simp
  qed
qed

lemma blocked_run:
  assumes "main config client parser w = Inr s0" and "File config \<in> dom (files w)"
    and "reaches M Z config cap s0 t"
  shows "files (world t) = files w \<and> written t = [] \<and> consumer_at t = Opening"
  using blocked_reaches [OF assms(3,2)] main_starts [OF assms(1)] by simp

lemma file_after_open_producer_step:
  assumes "producer_step M config cap s s'"
    and "consumer_at s \<noteq> Opening \<longrightarrow> File config \<in> dom (files (world s))"
  shows "consumer_at s' \<noteq> Opening \<longrightarrow> File config \<in> dom (files (world s'))"
  using assms
proof (cases rule: producer_step.cases)
  case (fetch q w' r ctx')
  with assms(2) query_search_database_files [OF fetch(5)] show ?thesis by simp
next
  case (query_fatal e w' w'' left)
  with assms(2) query_search_database_files [OF query_fatal(5)] show ?thesis by (auto split: if_splits)
next
  case (parse_fatal q w' e w'' left)
  with assms(2) query_search_database_files [OF parse_fatal(5)] show ?thesis by (auto split: if_splits)
qed (use assms(2) in simp_all)

lemma file_after_open_consumer_step:
  assumes "consumer_step Z config s s'"
    and "consumer_at s \<noteq> Opening \<longrightarrow> File config \<in> dom (files (world s))"
  shows "consumer_at s' \<noteq> Opening \<longrightarrow> File config \<in> dom (files (world s'))"
  using assms by (cases rule: consumer_step.cases) auto

lemma file_after_open:
  assumes "reaches M Z config cap s0 t" and "consumer_at s0 = Opening"
  shows "consumer_at t \<noteq> Opening \<longrightarrow> File config \<in> dom (files (world t))"
  using assms unfolding reaches_def
  by (induction rule: rtranclp_induct)
    (auto simp: step_def dest: file_after_open_producer_step file_after_open_consumer_step)

lemma outcome_query_fatal:
  "query_search_database config c w = (Inl e, w') \<Longrightarrow> outcome M c config = Some (Inl e)"
  using producer_query_fatal [of config c w e w' M] outcome_world [of M c config w] by simp

lemma outcome_parse_fatal:
  "query_search_database config c w = (Inr q, w') \<Longrightarrow> parse_search_results M q c = Inl e
   \<Longrightarrow> outcome M c config = Some (Inl e)"
  using producer_parse_fatal [of config c w q w' M e] outcome_world [of M c config w] by simp

lemma exit_producer_step:
  assumes "producer_step M config cap s s'" and "producer_inv M config target s"
  shows "\<forall>e. exited s' = Some e \<longrightarrow> target = Some (Inl e)"
  using assms
proof (cases rule: producer_step.cases)
  case (query_fatal e w' w'' left)
  with assms(2) outcome_query_fatal [OF query_fatal(5), of M] show ?thesis
    by (simp add: producer_inv_def)
next
  case (parse_fatal q w' e w'' left)
  with assms(2) outcome_parse_fatal [OF parse_fatal(5,6)] show ?thesis
    by (simp add: producer_inv_def)
qed simp_all

lemma exit_consumer_step:
  assumes "consumer_step Z config s s'"
  shows "\<forall>e. exited s' = Some e \<longrightarrow> e = OpenFailed"
  using assms by (cases rule: consumer_step.cases) simp_all

lemma exit_reaches:
  assumes "reaches M Z config cap s0 t" and "producer_inv M config target s0" and "exited s0 = None"
  shows "\<forall>e. exited t = Some e \<longrightarrow> e = OpenFailed \<or> target = Some (Inl e)"
  using assms(1) unfolding reaches_def
proof (induction rule: rtranclp_induct)
  case base
  show ?case using assms(3) by simp
next
  case (step t u)
  from step(1) have inv: "producer_inv M config target t"
    using producer_inv_reaches [OF _ assms(2)] by (simp add: reaches_def)
  from step(2) show ?case unfolding step_def
    using exit_producer_step [OF _ inv] exit_consumer_step by blast
qed

lemma example_start_serves: "serves example_config (dump example_start) example_docs"
  using example_serves by (simp add: example_start_def)

lemma example_window_size: "(0::nat) < 2" "2 = nat (sint (Configuration.Size example_config))"
  by (simp_all add: example_config_def)

lemma example_file_fresh: "File example_config \<notin> dom (files example_world)"
  by (simp add: example_world_def)

lemma main_any_world:
  assumes "main config client parser w = Inr s0"
  shows "main config client parser v = Inr (s0\<lparr>world := v\<lparr>requests := requests v @ [count_request config]\<rparr>\<rparr>)"
  using assms
  by (auto simp: main_def query_count_database_eq Let_def split: option.splits if_splits)

lemma main_fatal_files:
  "main config client parser w = Inl (e, w') \<Longrightarrow> files w' = files w"
  by (auto simp: main_def query_count_database_eq Let_def split: option.splits if_splits)

section \<open>C5: how a hit moves the cursor\<close>

text \<open>
  C5 says that a hit whose sort annotation is present replaces the cursor by it. The code
  reads the first element of the annotation as a string, and keeps the old cursor when
  that string is empty. Counterexample: the hit \<open>{"_id":"n1","sort":[5]}\<close> has a sort
  annotation, and the cursor \<open>b\<close> stays \<open>b\<close>.
\<close>

theorem numeric_sort_keeps_cursor:
  "Exists (Some (TypeObject [(''_id'', TypeString ''n1''), (''sort'', TypeArray [TypeNumber ''5''])])) [''sort'']
   \<and> After (snd (parse_hits MarshalTo_plain
         [TypeObject [(''_id'', TypeString ''n1''), (''sort'', TypeArray [TypeNumber ''5''])]]
         ([], example_ctx\<lparr>After := ''b''\<rparr>))) = ''b''"
  by (simp add: parse_hits.simps(2) Exists_def GetStringBytes_def Atoi_def is_digit_def Let_def example_ctx_def)

lemma sort_value_string:
  "Get (Some v) [''sort'', ''0''] = Some (TypeString s) \<Longrightarrow> sort_value v = s"
  by (simp add: sort_value_def GetStringBytes_def)

lemma sort_value_unusable:
  "\<forall>s. Get (Some v) [''sort'', ''0''] = Some (TypeString s) \<longrightarrow> s = [] \<Longrightarrow> sort_value v = []"
  by (auto simp: sort_value_def GetStringBytes_def split: option.splits Value.splits)

text \<open>
  C5, as amended. For each hit, in array order: if the first element of its sort
  annotation is a non-empty JSON string, the cursor becomes that string; if it is
  anything else, or the annotation is absent, the cursor stays; in every case the hit is
  counted and its payload is appended to the records for the queue; and a cursor that is
  set is never reset to the empty one.
\<close>

theorem cursor_follows_string_sort_values:
  "(\<forall>s. Get (Some v) [''sort'', ''0''] = Some (TypeString s) \<and> s \<noteq> []
        \<longrightarrow> After (snd (parse_hits M [v] (res, c))) = s)
   \<and> ((\<forall>s. Get (Some v) [''sort'', ''0''] = Some (TypeString s) \<longrightarrow> s = [])
        \<longrightarrow> After (snd (parse_hits M [v] (res, c))) = After c)
   \<and> (\<not> Exists (Some v) [''sort''] \<longrightarrow> After (snd (parse_hits M [v] (res, c))) = After c)
   \<and> Counter (snd (parse_hits M [v] (res, c))) = Counter c + 1
   \<and> fst (parse_hits M [v] (res, c)) = res @ [M (strip_sort v)]
   \<and> parse_hits M (v # vs) (res, c) = parse_hits M vs (parse_hits M [v] (res, c))
   \<and> (After c \<noteq> [] \<longrightarrow> After (snd (parse_hits M (v # vs) (res, c))) \<noteq> [])"
proof -
  have one: "parse_hits M [v] (res, c) =
      (res @ [M (strip_sort v)],
       c\<lparr>After := (if sort_value v \<noteq> [] then sort_value v else After c), Counter := Counter c + 1\<rparr>)"
    by (simp add: parse_hits_Cons)
  have a: "\<forall>s. Get (Some v) [''sort'', ''0''] = Some (TypeString s) \<and> s \<noteq> []
        \<longrightarrow> After (snd (parse_hits M [v] (res, c))) = s"
    by (auto simp: one sort_value_def GetStringBytes_def)
  have b: "(\<forall>s. Get (Some v) [''sort'', ''0''] = Some (TypeString s) \<longrightarrow> s = [])
        \<longrightarrow> After (snd (parse_hits M [v] (res, c))) = After c"
    using sort_value_unusable [of v] by (simp add: one)
  have c: "\<not> Exists (Some v) [''sort''] \<longrightarrow> After (snd (parse_hits M [v] (res, c))) = After c"
    by (simp add: one sort_value_absent)
  have d: "parse_hits M (v # vs) (res, c) = parse_hits M vs (parse_hits M [v] (res, c))"
    by (simp add: one parse_hits_Cons)
  have e: "After c \<noteq> [] \<longrightarrow> After (snd (parse_hits M (v # vs) (res, c))) \<noteq> []"
    by (simp add: parse_hits_eq last_key_nonempty)
  from a b c d e show ?thesis by (simp add: one)
qed

text \<open>
  The theorem at work: the hit \<open>b\<close> moves the cursor from \<open>a\<close> to \<open>b\<close>; the hit
  \<open>{"_id":"x"}\<close> without annotation leaves it at \<open>a\<close>, is counted and is emitted.
\<close>

theorem cursor_follows_string_sort_values_witness:
  \<open>After (snd (parse_hits MarshalTo_plain [example_hit ''b''] ([], example_ctx\<lparr>After := ''a''\<rparr>))) = ''b''
   \<and> After (snd (parse_hits MarshalTo_plain [TypeObject [(''_id'', TypeString ''x'')]]
         ([], example_ctx\<lparr>After := ''a''\<rparr>))) = ''a''
   \<and> Counter (snd (parse_hits MarshalTo_plain [TypeObject [(''_id'', TypeString ''x'')]]
         ([], example_ctx\<lparr>After := ''a''\<rparr>))) = 1
   \<and> fst (parse_hits MarshalTo_plain [TypeObject [(''_id'', TypeString ''x'')]]
         ([], example_ctx\<lparr>After := ''a''\<rparr>)) = [''{"_id":"x"}'']
   \<and> After (snd (parse_hits MarshalTo_plain [example_hit ''b'', TypeObject [(''_id'', TypeString ''x'')]]
         ([], example_ctx\<lparr>After := ''a''\<rparr>))) \<noteq> []\<close>
proof -
  let ?c = "example_ctx\<lparr>After := ''a''\<rparr>"
  let ?x = "TypeObject [(''_id'', TypeString ''x'')]"
  have k: "Get (Some (example_hit ''b'')) [''sort'', ''0''] = Some (TypeString ''b'') \<and> ''b'' \<noteq> []"
    by (simp add: example_hit_def Atoi_def is_digit_def)
  have n: "\<not> Exists (Some ?x) [''sort'']"
    by (simp add: Exists_def)
  have s: "MarshalTo_plain (strip_sort ?x) = ''{\"_id\":\"x\"}''"
    using n by (simp add: strip_sort_def)
  have a: "After ?c \<noteq> []"
    by simp
  have c: "Counter ?c + 1 = 1"
    by (simp add: example_ctx_def)
  note hit = cursor_follows_string_sort_values [of "example_hit ''b''" MarshalTo_plain "[]" ?c "[?x]"]
  note bare = cursor_follows_string_sort_values [of ?x MarshalTo_plain "[]" ?c "[]"]
  from hit k have 1: "After (snd (parse_hits MarshalTo_plain [example_hit ''b''] ([], ?c))) = ''b''"
    by blast
  from bare n have 2: "After (snd (parse_hits MarshalTo_plain [?x] ([], ?c))) = ''a''"
    by simp
  from bare c have 3: "Counter (snd (parse_hits MarshalTo_plain [?x] ([], ?c))) = 1"
    by simp
  from bare s have 4: "fst (parse_hits MarshalTo_plain [?x] ([], ?c)) = [''{\"_id\":\"x\"}'']"
    by simp
  from hit a have 5: "After (snd (parse_hits MarshalTo_plain [example_hit ''b'', ?x] ([], ?c))) \<noteq> []"
    by blast
  from 1 2 3 4 5 show ?thesis by blast
qed

section \<open>C10: a sort annotation that gives no cursor\<close>

text \<open>
  C10. A hit that has a sort annotation whose first element is no JSON string, or the
  empty string (or is missing), leaves the cursor where it was, exactly as a hit without
  annotation does; the hit is counted and emitted all the same, and the payload is the hit
  with the member \<open>sort\<close> the code read taken out: the members before and after it stay
  as they were, and an object with distinct names has no \<open>sort\<close> left.
\<close>

theorem unusable_sort_value_keeps_cursor:
  assumes "Exists (Some v) [''sort'']"
    and "\<forall>s. Get (Some v) [''sort'', ''0''] = Some (TypeString s) \<longrightarrow> s = []"
  shows "parse_hits M [v] (res, c) = (res @ [M (Del v ''sort'')], c\<lparr>Counter := Counter c + 1\<rparr>)
    \<and> (\<forall>v0. \<not> Exists (Some v0) [''sort'']
          \<longrightarrow> snd (parse_hits M [v0] (res, c)) = snd (parse_hits M [v] (res, c)))
    \<and> (\<exists>pre srt post. v = TypeObject (pre @ (''sort'', srt) # post) \<and> ''sort'' \<notin> fst ` set pre
          \<and> Del v ''sort'' = TypeObject (pre @ post))
    \<and> (\<forall>kvs. v = TypeObject kvs \<and> distinct (map fst kvs) \<longrightarrow> \<not> Exists (Some (Del v ''sort'')) [''sort''])"
proof -
  from assms(2) have k: "sort_value v = []" by (rule sort_value_unusable)
  from assms(1) have s: "strip_sort v = Del v ''sort''" by (simp add: strip_sort_def)
  have one: "parse_hits M [v] (res, c) = (res @ [M (Del v ''sort'')], c\<lparr>Counter := Counter c + 1\<rparr>)"
    by (simp add: parse_hits_Cons k s)
  have same: "\<forall>v0. \<not> Exists (Some v0) [''sort'']
          \<longrightarrow> snd (parse_hits M [v0] (res, c)) = snd (parse_hits M [v] (res, c))"
    by (simp add: parse_hits_Cons sort_value_absent k)
  from assms(1) obtain kvs x where v: "v = TypeObject kvs" and x: "Object_Get kvs ''sort'' = Some x"
    unfolding Exists_sort_cases by blast
  from Object_Get_split [OF x] obtain pre post where
    "kvs = pre @ (''sort'', x) # post" "''sort'' \<notin> fst ` set pre" "Object_Del kvs ''sort'' = pre @ post"
    by blast
  with v have shape: "\<exists>pre srt post. v = TypeObject (pre @ (''sort'', srt) # post) \<and> ''sort'' \<notin> fst ` set pre
          \<and> Del v ''sort'' = TypeObject (pre @ post)"
    by auto
  have gone: "\<forall>kvs. v = TypeObject kvs \<and> distinct (map fst kvs) \<longrightarrow> \<not> Exists (Some (Del v ''sort'')) [''sort'']"
    by (auto simp: Exists_def Object_Del_distinct)
  from one same shape gone show ?thesis by blast
qed

text \<open>
  The theorem on the hits \<open>{"_id":"n1","sort":[5]}\<close> and \<open>{"_id":"n2","sort":[""]}\<close>: the
  cursor \<open>b\<close> stays, the counter goes to 1, and the record has lost its \<open>sort\<close>.
\<close>

theorem unusable_sort_value_keeps_cursor_witness:
  \<open>parse_hits MarshalTo_plain
      [TypeObject [(''_id'', TypeString ''n1''), (''sort'', TypeArray [TypeNumber ''5''])]]
      ([], example_ctx\<lparr>After := ''b''\<rparr>)
    = ([''{"_id":"n1"}''], example_ctx\<lparr>After := ''b'', Counter := 1\<rparr>)
   \<and> parse_hits MarshalTo_plain
      [TypeObject [(''_id'', TypeString ''n2''), (''sort'', TypeArray [TypeString []])]]
      ([], example_ctx\<lparr>After := ''b''\<rparr>)
    = ([''{"_id":"n2"}''], example_ctx\<lparr>After := ''b'', Counter := 1\<rparr>)\<close>
proof -
  let ?c = "example_ctx\<lparr>After := ''b''\<rparr>"
  let ?n = "TypeObject [(''_id'', TypeString ''n1''), (''sort'', TypeArray [TypeNumber ''5''])]"
  let ?e = "TypeObject [(''_id'', TypeString ''n2''), (''sort'', TypeArray [TypeString []])]"
  have n1: "Exists (Some ?n) [''sort'']" and e1: "Exists (Some ?e) [''sort'']"
    by (simp_all add: Exists_def)
  have n2: "\<forall>s. Get (Some ?n) [''sort'', ''0''] = Some (TypeString s) \<longrightarrow> s = []"
    and e2: "\<forall>s. Get (Some ?e) [''sort'', ''0''] = Some (TypeString s) \<longrightarrow> s = []"
    by (simp_all add: Atoi_def is_digit_def)
  have c: "?c\<lparr>Counter := Counter ?c + 1\<rparr> = example_ctx\<lparr>After := ''b'', Counter := 1\<rparr>"
    by (simp add: example_ctx_def)
  from unusable_sort_value_keeps_cursor [OF n1 n2, of MarshalTo_plain "[]" ?c]
    unusable_sort_value_keeps_cursor [OF e1 e2, of MarshalTo_plain "[]" ?c] c
  show ?thesis by simp
qed

section \<open>C9: a response without the inner hits array\<close>

text \<open>
  C9. When the top-level \<open>hits\<close> of a response exists and \<open>hits.hits\<close> is absent or no
  array, \<open>parse_search_results\<close> returns no records and leaves the context alone, just as
  it does for an empty array, and the producer leaves its loop in the normal way, with no
  fatal error, after that one request.
\<close>

theorem missing_hits_array_ends_run:
  assumes "Client c (search_request config c) = Some resp" and "StatusCode resp = 200"
    and "Parser c (Body resp) = Some json" and "Exists (Some json) [''hits'']"
    and "\<forall>a. Get (Some json) [''hits'', ''hits''] \<noteq> Some (TypeArray a)"
  shows "parse_search_results M (Body resp) c = Inr ([], c)
    \<and> producer M c config w = Some (Inr c, w\<lparr>requests := requests w @ [search_request config c]\<rparr>)
    \<and> (\<forall>input' json'. Parser c input' = Some json'
            \<and> Get (Some json') [''hits'', ''hits''] = Some (TypeArray [])
          \<longrightarrow> parse_search_results M input' c = parse_search_results M (Body resp) c)"
proof -
  from assms(5) have none: "GetArray (Some json) [''hits'', ''hits''] = []"
    by (auto simp: GetArray_def split: option.splits Value.splits)
  from parse_search_results_eq [OF assms(3,4), of M] none
  have p: "parse_search_results M (Body resp) c = Inr ([], c)"
    by (simp add: last_key_def)
  have q: "query_search_database config c w =
      (Inr (Body resp), w\<lparr>requests := requests w @ [search_request config c]\<rparr>)"
    using assms(1,2) by (simp add: query_search_database_eq)
  from producer_break [OF q p]
  have r: "producer M c config w = Some (Inr c, w\<lparr>requests := requests w @ [search_request config c]\<rparr>)" .
  have e: "\<forall>input' json'. Parser c input' = Some json'
            \<and> Get (Some json') [''hits'', ''hits''] = Some (TypeArray [])
          \<longrightarrow> parse_search_results M input' c = parse_search_results M (Body resp) c"
  proof (intro allI impI)
    fix input' json'
    assume a: "Parser c input' = Some json' \<and> Get (Some json') [''hits'', ''hits''] = Some (TypeArray [])"
    then have ex: "Exists (Some json') [''hits'']"
      by (cases "Get_key json' ''hits''") (simp_all add: Exists_def)
    from a have "GetArray (Some json') [''hits'', ''hits''] = []"
      by (simp add: GetArray_def)
    with parse_search_results_eq [of c input' json' M] a ex p
    show "parse_search_results M input' c = parse_search_results M (Body resp) c"
      by (simp add: last_key_def)
  qed
  from p r e show ?thesis by blast
qed

text \<open>The theorem on a service that answers \<open>{"hits":{"total":0}}\<close>.\<close>

theorem missing_hits_array_ends_run_witness:
  \<open>parse_search_results MarshalTo_plain ''{"hits":{"total":0}}''
      (fixed_service \<lparr>StatusCode = 200, Body = ''{"hits":{"total":0}}''\<rparr>
         (TypeObject [(''hits'', TypeObject [(''total'', TypeNumber ''0'')])]))
    = Inr ([], fixed_service \<lparr>StatusCode = 200, Body = ''{"hits":{"total":0}}''\<rparr>
         (TypeObject [(''hits'', TypeObject [(''total'', TypeNumber ''0'')])]))
   \<and> producer MarshalTo_plain
      (fixed_service \<lparr>StatusCode = 200, Body = ''{"hits":{"total":0}}''\<rparr>
         (TypeObject [(''hits'', TypeObject [(''total'', TypeNumber ''0'')])]))
      example_config example_world
    = Some (Inr (fixed_service \<lparr>StatusCode = 200, Body = ''{"hits":{"total":0}}''\<rparr>
         (TypeObject [(''hits'', TypeObject [(''total'', TypeNumber ''0'')])])),
        example_world\<lparr>requests := requests example_world @
          [search_request example_config
            (fixed_service \<lparr>StatusCode = 200, Body = ''{"hits":{"total":0}}''\<rparr>
              (TypeObject [(''hits'', TypeObject [(''total'', TypeNumber ''0'')])]))]\<rparr>)\<close>
proof -
  let ?resp = \<open>\<lparr>StatusCode = 200, Body = ''{"hits":{"total":0}}''\<rparr>\<close>
  let ?json = "TypeObject [(''hits'', TypeObject [(''total'', TypeNumber ''0'')])]"
  let ?c = "fixed_service ?resp ?json"
  have 1: "Client ?c (search_request example_config ?c) = Some ?resp"
    by (simp add: fixed_service_def)
  have 2: "StatusCode ?resp = 200"
    by simp
  have 3: "Parser ?c (Body ?resp) = Some ?json"
    by (simp add: fixed_service_def)
  have 4: "Exists (Some ?json) [''hits'']"
    by (simp add: Exists_def)
  have 5: "\<forall>a. Get (Some ?json) [''hits'', ''hits''] \<noteq> Some (TypeArray a)"
    by simp
  from missing_hits_array_ends_run [OF 1 2 3 4 5, of MarshalTo_plain example_world]
  show ?thesis by simp
qed

section \<open>C7: a bad search response ends the process\<close>

lemma exited_no_producer_step: "producer_step M config cap s s' \<Longrightarrow> exited s = None"
  by (induction rule: producer_step.induct) simp_all

lemma exited_no_consumer_step: "consumer_step Z config s s' \<Longrightarrow> exited s = None"
  by (induction rule: consumer_step.induct) simp_all

lemma exited_no_step: "exited s \<noteq> None \<Longrightarrow> \<not> step M Z config cap s s'"
  by (auto simp: step_def dest: exited_no_producer_step exited_no_consumer_step)

text \<open>
  C7. When the answer to a search request has a status other than 200, or a body whose
  top-level \<open>hits\<close> is missing, the producer ends with the fatal error after that single
  request: nothing is retried. In the running process the producer's step from there
  sets the fatal exit, and the exited process takes no further step of either goroutine.
\<close>

theorem bad_search_response_is_fatal:
  assumes "Client c (search_request config c) = Some resp"
    and "StatusCode resp \<noteq> 200
         \<or> (\<exists>json. Parser c (Body resp) = Some json \<and> \<not> Exists (Some json) [''hits''])"
  shows "producer M c config w =
      Some (Inl (if StatusCode resp \<noteq> 200 then InvalidStatus (StatusCode resp) else HitsMissing),
            w\<lparr>requests := requests w @ [search_request config c]\<rparr>)
    \<and> (\<forall>s s'. dump s = c \<and> producer_at s = Fetching \<and> producer_step M config cap s s'
          \<longrightarrow> exited s' = Some (if StatusCode resp \<noteq> 200 then InvalidStatus (StatusCode resp) else HitsMissing)
              \<and> dump s' = c
              \<and> requests (world s') = requests (world s) @ [search_request config c]
              \<and> (\<forall>s''. \<not> step M Z config cap s' s''))"
proof (cases "StatusCode resp \<noteq> 200")
  case True
  let ?e = "InvalidStatus (StatusCode resp)"
  have q: "query_search_database config c w = (Inl ?e, w\<lparr>requests := requests w @ [search_request config c]\<rparr>)" for w
    using assms(1) True by (simp add: query_search_database_eq)
  have run: "producer M c config w = Some (Inl ?e, w\<lparr>requests := requests w @ [search_request config c]\<rparr>)"
    by (rule producer_query_fatal [OF q])
  have stp: "exited s' = Some ?e \<and> dump s' = c
      \<and> requests (world s') = requests (world s) @ [search_request config c]
      \<and> (\<forall>s''. \<not> step M Z config cap s' s'')"
    if "dump s = c \<and> producer_at s = Fetching \<and> producer_step M config cap s s'" for s s'
  proof -
    from that have d: "dump s = c" and f: "producer_at s = Fetching"
      and st: "producer_step M config cap s s'" by simp_all
    from st f d q [of "world s"] have "exited s' = Some ?e \<and> dump s' = c
        \<and> requests (world s') = requests (world s) @ [search_request config c]"
      by (cases rule: producer_step.cases) (auto split: if_splits)
    then show ?thesis by (simp add: exited_no_step)
  qed
  have e: "(if StatusCode resp \<noteq> 200 then InvalidStatus (StatusCode resp) else HitsMissing) = ?e"
    using True by simp
  show ?thesis unfolding e using run stp by blast
next
  case False
  with assms(2) obtain json where j: "Parser c (Body resp) = Some json" "\<not> Exists (Some json) [''hits'']"
    by blast
  have q: "query_search_database config c w = (Inr (Body resp), w\<lparr>requests := requests w @ [search_request config c]\<rparr>)" for w
    using assms(1) False by (simp add: query_search_database_eq)
  have p: "parse_search_results M (Body resp) c = Inl HitsMissing"
    using j by (simp add: parse_search_results_def)
  have run: "producer M c config w = Some (Inl HitsMissing, w\<lparr>requests := requests w @ [search_request config c]\<rparr>)"
    by (rule producer_parse_fatal [OF q p])
  have stp: "exited s' = Some HitsMissing \<and> dump s' = c
      \<and> requests (world s') = requests (world s) @ [search_request config c]
      \<and> (\<forall>s''. \<not> step M Z config cap s' s'')"
    if "dump s = c \<and> producer_at s = Fetching \<and> producer_step M config cap s s'" for s s'
  proof -
    from that have d: "dump s = c" and f: "producer_at s = Fetching"
      and st: "producer_step M config cap s s'" by simp_all
    from st f d q [of "world s"] p have "exited s' = Some HitsMissing \<and> dump s' = c
        \<and> requests (world s') = requests (world s) @ [search_request config c]"
      by (cases rule: producer_step.cases) (auto split: if_splits)
    then show ?thesis by (simp add: exited_no_step)
  qed
  have e: "(if StatusCode resp \<noteq> 200 then InvalidStatus (StatusCode resp) else HitsMissing) = HitsMissing"
    using False by simp
  show ?thesis unfolding e using run stp by blast
qed

text \<open>
  The theorem on a service that answers 503, and on one that answers 200 with the body
  \<open>{"error":"x"}\<close>.
\<close>

theorem bad_search_response_is_fatal_witness:
  \<open>producer MarshalTo_plain (fixed_service \<lparr>StatusCode = 503, Body = []\<rparr> TypeNull) example_config example_world
     = Some (Inl (InvalidStatus 503),
         example_world\<lparr>requests := requests example_world @
           [search_request example_config (fixed_service \<lparr>StatusCode = 503, Body = []\<rparr> TypeNull)]\<rparr>)
   \<and> producer MarshalTo_plain
        (fixed_service \<lparr>StatusCode = 200, Body = ''{"error":"x"}''\<rparr> (TypeObject [(''error'', TypeString ''x'')]))
        example_config example_world
     = Some (Inl HitsMissing,
         example_world\<lparr>requests := requests example_world @
           [search_request example_config
             (fixed_service \<lparr>StatusCode = 200, Body = ''{"error":"x"}''\<rparr> (TypeObject [(''error'', TypeString ''x'')]))]\<rparr>)\<close>
proof -
  let ?r1 = "\<lparr>StatusCode = 503, Body = []\<rparr>"
  let ?c1 = "fixed_service ?r1 TypeNull"
  let ?r2 = \<open>\<lparr>StatusCode = 200, Body = ''{"error":"x"}''\<rparr>\<close>
  let ?j2 = "TypeObject [(''error'', TypeString ''x'')]"
  let ?c2 = "fixed_service ?r2 ?j2"
  have a1: "Client ?c1 (search_request example_config ?c1) = Some ?r1"
    by (simp add: fixed_service_def)
  have b1: "StatusCode ?r1 \<noteq> 200
      \<or> (\<exists>json. Parser ?c1 (Body ?r1) = Some json \<and> \<not> Exists (Some json) [''hits''])"
    by simp
  have a2: "Client ?c2 (search_request example_config ?c2) = Some ?r2"
    by (simp add: fixed_service_def)
  have b2: "StatusCode ?r2 \<noteq> 200
      \<or> (\<exists>json. Parser ?c2 (Body ?r2) = Some json \<and> \<not> Exists (Some json) [''hits''])"
    by (simp add: fixed_service_def Exists_def)
  note f1 = bad_search_response_is_fatal [OF a1 b1, of MarshalTo_plain example_world, THEN conjunct1]
  note f2 = bad_search_response_is_fatal [OF a2 b2, of MarshalTo_plain example_world, THEN conjunct1]
  have s1: "StatusCode ?r1 \<noteq> 200" and s2: "\<not> StatusCode ?r2 \<noteq> 200" by simp_all
  from f1 f2 show ?thesis unfolding if_P [OF s1] if_not_P [OF s2] by (simp only: Response.simps simp_thms)
qed

section \<open>C8: a count of zero\<close>

text \<open>
  C8. When the count endpoint answers with a count of zero (or with a body from which the
  code reads zero), \<open>main\<close> ends with the fatal "Nothing to dump!" before the goroutines
  start: the only request made is the count request, which is no search request, and the
  files are those from before, so no output file exists.
\<close>

theorem zero_count_aborts:
  assumes "client (count_request config) = Some resp" and "StatusCode resp = 200"
    and "parser (Body resp) = Some json"
    and "(if Exists (Some json) [''count''] then GetInt (Some json) [''count''] else 0) = 0"
  shows "main config client parser w = Inl (NothingToDump, w\<lparr>requests := requests w @ [count_request config]\<rparr>)
    \<and> files (w\<lparr>requests := requests w @ [count_request config]\<rparr>) = files w
    \<and> (\<forall>c. count_request config \<noteq> search_request config c)"
proof -
  have "\<forall>c. count_request config \<noteq> search_request config c"
    using count_is_no_search [of config] by metis
  then show ?thesis
    using assms by (simp add: main_def query_count_database_eq)
qed

text \<open>The theorem on a service whose count endpoint answers \<open>{"count":0}\<close>.\<close>

theorem zero_count_aborts_witness:
  \<open>main example_config (\<lambda>_. Some \<lparr>StatusCode = 200, Body = ''{"count":0}''\<rparr>)
      (\<lambda>b. if b = ''{"count":0}'' then Some (TypeObject [(''count'', TypeNumber ''0'')]) else None)
      example_world
    = Inl (NothingToDump, example_world\<lparr>requests := requests example_world @ [count_request example_config]\<rparr>)
   \<and> files (example_world\<lparr>requests := requests example_world @ [count_request example_config]\<rparr>)
      = files example_world\<close>
proof -
  let ?resp = \<open>\<lparr>StatusCode = 200, Body = ''{"count":0}''\<rparr>\<close>
  let ?json = "TypeObject [(''count'', TypeNumber ''0'')]"
  let ?client = "\<lambda>_ :: Request. Some ?resp"
  let ?parser = \<open>\<lambda>b. if b = ''{"count":0}'' then Some ?json else None\<close>
  have 1: "?client (count_request example_config) = Some ?resp" by simp
  have 2: "StatusCode ?resp = 200" by simp
  have 3: "?parser (Body ?resp) = Some ?json" by simp
  have 4: "(if Exists (Some ?json) [''count''] then GetInt (Some ?json) [''count''] else 0) = 0"
    by (simp add: GetInt_def ParseInt64BestEffort_def Atoi_def is_digit_def)
  from zero_count_aborts [of ?client example_config ?resp ?parser ?json example_world, OF 1 2 3 4]
  show ?thesis by simp
qed

section \<open>C4: the query document\<close>

text \<open>
  C4. For every window size and cursor the rendered query is, byte for byte, the document
  with \<open>size\<close>, the \<open>bool/must/match_all\<close> query and the sort on \<open>_id\<close> ascending, with the
  clause \<open>"search_after": ["c"]\<close> in it exactly when the cursor \<open>c\<close> is not empty; apart from
  layout it is the document of the interface description. The first request of a run, the
  one the producer makes from the context \<open>main\<close> sets up, has no \<open>search_after\<close> clause.
\<close>

theorem query_document_shape:
  \<open>Execute build_query_template c =
     ''{'' @ ln @ tab @ ''"size": '' @ Itoa (Context.Size c) @ '','' @ ln @ tab @
     ''"query": {"bool": {"must": {"match_all": {}}}},'' @
     (if After c = [] then [] else ln @ tab @ ''"search_after": ["'' @ After c @ ''"],'') @
     ln @ tab @ ''"sort": ['' @ ln @ tab @ ''  { "_id": "asc" } '' @ ln @ tab @ '']'' @ ln @ ''}''
   \<and> squeeze (Execute build_query_template c) = squeeze (query_document (Context.Size c) (After c))
   \<and> (\<forall>config client parser w s0. main config client parser w = Inr s0 \<longrightarrow>
        producer_at s0 = Fetching
        \<and> snd (query_search_database config (dump s0) (world s0))
            = (world s0)\<lparr>requests := requests (world s0) @ [search_request config (dump s0)]\<rparr>
        \<and> body (search_request config (dump s0)) =
            ''{'' @ ln @ tab @ ''"size": '' @ Itoa (Configuration.Size config) @ '','' @ ln @ tab @
            ''"query": {"bool": {"must": {"match_all": {}}}},'' @
            ln @ tab @ ''"sort": ['' @ ln @ tab @ ''  { "_id": "asc" } '' @ ln @ tab @ '']'' @ ln @ ''}'')\<close>
proof -
  have sq: "squeeze (Execute build_query_template c) = squeeze (query_document (Context.Size c) (After c))"
    unfolding Execute_build_query_template query_document_def squeeze_append
    by (simp add: squeeze_def is_layout_def ln_def tab_def)
  have first: \<open>producer_at s0 = Fetching
        \<and> snd (query_search_database config (dump s0) (world s0))
            = (world s0)\<lparr>requests := requests (world s0) @ [search_request config (dump s0)]\<rparr>
        \<and> body (search_request config (dump s0)) =
            ''{'' @ ln @ tab @ ''"size": '' @ Itoa (Configuration.Size config) @ '','' @ ln @ tab @
            ''"query": {"bool": {"must": {"match_all": {}}}},'' @
            ln @ tab @ ''"sort": ['' @ ln @ tab @ ''  { "_id": "asc" } '' @ ln @ tab @ '']'' @ ln @ ''}''\<close>
    if "main config client parser w = Inr s0" for config client parser w s0
  proof -
    from main_starts [OF that] have d: "dump s0 = \<lparr>Size = Configuration.Size config, After = [], Counter = 0,
        Client = client, Parser = parser, Template = build_query_template, Tasks = []\<rparr>"
      and f: "producer_at s0 = Fetching" by simp_all
    have "body (search_request config (dump s0)) = Execute build_query_template (dump s0)"
      by (simp add: search_request_def d)
    also note Execute_build_query_template
    finally show ?thesis using f by (simp add: query_search_database_eq d)
  qed
  from Execute_build_query_template [of c] sq first show ?thesis by blast
qed

text \<open>
  The theorem on the example: the run starts, its first query has size 2 and no
  \<open>search_after\<close>, and the query for the cursor \<open>b\<close> carries \<open>"search_after": ["b"]\<close>.
\<close>

theorem query_document_shape_witness:
  \<open>main example_config example_client example_parser example_world = Inr example_start
   \<and> body (search_request example_config (dump example_start)) =
       ''{'' @ ln @ tab @ ''"size": 2,'' @ ln @ tab @
       ''"query": {"bool": {"must": {"match_all": {}}}},'' @
       ln @ tab @ ''"sort": ['' @ ln @ tab @ ''  { "_id": "asc" } '' @ ln @ tab @ '']'' @ ln @ ''}''
   \<and> Execute build_query_template (example_ctx\<lparr>After := ''b''\<rparr>) =
       ''{'' @ ln @ tab @ ''"size": 2,'' @ ln @ tab @
       ''"query": {"bool": {"must": {"match_all": {}}}},'' @
       ln @ tab @ ''"search_after": ["b"],'' @
       ln @ tab @ ''"sort": ['' @ ln @ tab @ ''  { "_id": "asc" } '' @ ln @ tab @ '']'' @ ln @ ''}''\<close>
proof -
  note shape = query_document_shape [of "example_ctx\<lparr>After := ''b''\<rparr>"]
  from shape [THEN conjunct2, THEN conjunct2, rule_format, OF example_main]
  have first: \<open>body (search_request example_config (dump example_start)) =
       ''{'' @ ln @ tab @ ''"size": '' @ Itoa (Configuration.Size example_config) @ '','' @ ln @ tab @
       ''"query": {"bool": {"must": {"match_all": {}}}},'' @
       ln @ tab @ ''"sort": ['' @ ln @ tab @ ''  { "_id": "asc" } '' @ ln @ tab @ '']'' @ ln @ ''}''\<close>
    by simp
  have sz: "Itoa (Configuration.Size example_config) = ''2''" "Itoa (Context.Size example_ctx) = ''2''"
    by (simp_all add: example_config_def example_ctx_def Itoa_2)
  from shape [THEN conjunct1] first example_main show ?thesis
    by (simp add: sz ln_def tab_def)
qed

section \<open>C1: the producer pages through the whole index\<close>

text \<open>
  C1. Take a run that \<open>main\<close> has started, whatever non-zero count the count endpoint
  reported, against a service that answers the search queries from an index of \<open>N\<close> hits,
  with a window size \<open>W\<close> of at least 1. Then the producer returns; the windows it was
  given are the index cut into \<open>(N + W - 1) div W\<close> windows with hits, each non-empty, and
  one final window without hits; it sent exactly the \<open>N\<close> records of the index, in order; and
  the counter ends at \<open>N\<close> (as a signed number, when \<open>N\<close> is below \<open>2^63\<close>). And whatever the
  service, a producer that returns has seen exactly one window without hits, the last one:
  nothing but the empty hits array ends the loop.
\<close>

theorem producer_pages_whole_index:
  assumes "main config client parser w = Inr s0"
    and "index_ok docs" and "serves config (dump s0) docs"
    and "0 < W" and "W = nat (sint (Configuration.Size config))"
  shows "\<exists>c' w'. producer M (dump s0) config (world s0) = Some (Inr c', w')
     \<and> map (hits_of (dump s0)) (drop (length (requests (world s0))) (requests w')) = windows W docs
     \<and> length (windows W docs) = (length docs + W - 1) div W + 1
     \<and> (\<forall>p \<in> set (butlast (windows W docs)). p \<noteq> [])
     \<and> last (windows W docs) = []
     \<and> Tasks c' = map (\<lambda>v. M (strip_sort v)) docs
     \<and> length (Tasks c') = length docs
     \<and> Counter c' = of_nat (length docs)
     \<and> (length docs < 2 ^ 63 \<longrightarrow> sint (Counter c') = int (length docs))
     \<and> (\<forall>M1 c1 config1 w1 c2 w2. producer M1 c1 config1 w1 = Some (Inr c2, w2) \<longrightarrow>
          (\<exists>reqs. requests w2 = requests w1 @ reqs \<and> reqs \<noteq> [] \<and> hits_of c1 (last reqs) = []
             \<and> (\<forall>r \<in> set (butlast reqs). hits_of c1 r \<noteq> [])))"
proof -
  let ?c0 = "dump s0"
  let ?cursors = "walk W [] docs"
  let ?c' = "?c0\<lparr>After := cursor_after docs, Counter := of_nat (length docs),
                 Tasks := map (\<lambda>v. M (strip_sort v)) docs\<rparr>"
  let ?w' = "(world s0)\<lparr>requests := requests (world s0)
                 @ map (\<lambda>c. search_request config (?c0\<lparr>After := c\<rparr>)) ?cursors\<rparr>"
  from main_starts [OF assms(1)] have d: "?c0 = \<lparr>Size = Configuration.Size config, After = [],
      Counter = 0, Client = client, Parser = parser, Template = build_query_template, Tasks = []\<rparr>"
    by simp
  have sz: "W = nat (sint (Context.Size ?c0))" using assms(5) d by simp
  have c0: "?c0\<lparr>After := cursor_after [], Counter := 0, Tasks := []\<rparr> = ?c0"
    by (simp add: d cursor_after_def)
  from producer_walk [OF assms(2,3,4) sz, where pre = "[]" and rem = docs and M = M and n = 0
      and ts = "[]" and w = "world s0"]
  have run: "producer M ?c0 config (world s0) = Some (Inr ?c', ?w')"
    unfolding c0 by simp
  have "map (hits_of ?c0) (map (\<lambda>c. search_request config (?c0\<lparr>After := c\<rparr>)) ?cursors)
      = map (\<lambda>c. window W c docs) ?cursors"
    unfolding map_map
  proof (rule map_cong [OF refl])
    fix c assume "c \<in> set ?cursors"
    then have "c \<in> set ([] # map sort_value docs)" using walk_known [of c W "[]" docs] by simp
    from hits_of_served [OF assms(3) this] sz
    show "(hits_of ?c0 \<circ> (\<lambda>c. search_request config (?c0\<lparr>After := c\<rparr>))) c = window W c docs"
      by simp
  qed
  also have "\<dots> = windows W docs"
    using walk_windows [of "[]" docs W] assms(2,4) by simp
  finally have pages: "map (hits_of ?c0) (drop (length (requests (world s0))) (requests ?w')) = windows W docs"
    by simp
  have small: "length docs < 2 ^ 63 \<longrightarrow> sint (Counter ?c') = int (length docs)"
    by (simp add: sint_of_nat_small)
  have stop: "\<forall>M1 c1 config1 w1 c2 w2. producer M1 c1 config1 w1 = Some (Inr c2, w2) \<longrightarrow>
          (\<exists>reqs. requests w2 = requests w1 @ reqs \<and> reqs \<noteq> [] \<and> hits_of c1 (last reqs) = []
             \<and> (\<forall>r \<in> set (butlast reqs). hits_of c1 r \<noteq> []))"
    using producer_stop_rule by blast
  have bl: "\<forall>p \<in> set (butlast (windows W docs)). p \<noteq> []"
    using windows_butlast [OF assms(4)] by blast
  from run pages windows_length [OF assms(4), of docs] bl windows_last [of W docs] small stop
  have "producer M (dump s0) config (world s0) = Some (Inr ?c', ?w')
     \<and> map (hits_of (dump s0)) (drop (length (requests (world s0))) (requests ?w')) = windows W docs
     \<and> length (windows W docs) = (length docs + W - 1) div W + 1
     \<and> (\<forall>p \<in> set (butlast (windows W docs)). p \<noteq> [])
     \<and> last (windows W docs) = []
     \<and> Tasks ?c' = map (\<lambda>v. M (strip_sort v)) docs
     \<and> length (Tasks ?c') = length docs
     \<and> Counter ?c' = of_nat (length docs)
     \<and> (length docs < 2 ^ 63 \<longrightarrow> sint (Counter ?c') = int (length docs))
     \<and> (\<forall>M1 c1 config1 w1 c2 w2. producer M1 c1 config1 w1 = Some (Inr c2, w2) \<longrightarrow>
          (\<exists>reqs. requests w2 = requests w1 @ reqs \<and> reqs \<noteq> [] \<and> hits_of c1 (last reqs) = []
             \<and> (\<forall>r \<in> set (butlast reqs). hits_of c1 r \<noteq> [])))"
    by simp
  then show ?thesis by (intro exI)
qed

text \<open>
  The theorem on the example: three hits, window size 2, a reported count of 7. The
  producer fetches the windows \<open>[a, b]\<close>, \<open>[c]\<close> and \<open>[]\<close>, sends three records and counts 3.
\<close>

theorem producer_pages_whole_index_witness:
  \<open>\<exists>c' w'. producer MarshalTo_plain (dump example_start) example_config (world example_start) = Some (Inr c', w')
     \<and> map (hits_of (dump example_start)) (drop (length (requests (world example_start))) (requests w'))
         = [[example_hit ''a'', example_hit ''b''], [example_hit ''c''], []]
     \<and> Tasks c' = [''{"_id":"a"}'', ''{"_id":"b"}'', ''{"_id":"c"}'']
     \<and> Counter c' = 3
     \<and> sint (Counter c') = 3\<close>
proof -
  have d: "dump example_start = example_ctx" by (simp add: example_start_def)
  have srv: "serves example_config (dump example_start) example_docs"
    unfolding d by (rule example_serves)
  have W: "(0::nat) < 2" "2 = nat (sint (Configuration.Size example_config))"
    by (simp_all add: example_config_def)
  have n: "length example_docs = 3" "length example_docs < 2 ^ 63"
    by (simp_all add: example_docs_def)
  from producer_pages_whole_index [OF example_main example_index_ok srv W, of MarshalTo_plain]
  obtain c' w' where
    "producer MarshalTo_plain (dump example_start) example_config (world example_start) = Some (Inr c', w')"
    "map (hits_of (dump example_start)) (drop (length (requests (world example_start))) (requests w'))
       = windows 2 example_docs"
    "Tasks c' = map (\<lambda>v. MarshalTo_plain (strip_sort v)) example_docs"
    "Counter c' = of_nat (length example_docs)"
    "length example_docs < 2 ^ 63 \<longrightarrow> sint (Counter c') = int (length example_docs)"
    by blast
  with n have "producer MarshalTo_plain (dump example_start) example_config (world example_start) = Some (Inr c', w')
     \<and> map (hits_of (dump example_start)) (drop (length (requests (world example_start))) (requests w'))
         = [[example_hit ''a'', example_hit ''b''], [example_hit ''c''], []]
     \<and> Tasks c' = [''{\"_id\":\"a\"}'', ''{\"_id\":\"b\"}'', ''{\"_id\":\"c\"}'']
     \<and> Counter c' = 3
     \<and> sint (Counter c') = 3"
    by (simp add: example_windows example_records)
  then show ?thesis by (intro exI)
qed

section \<open>C2: the file holds the records in the order they were sent\<close>

text \<open>
  C2. Take any run that \<open>main\<close> has started and that has come to the consumer's end, for
  any capacity of the channel (zero included) and any interleaving of the two goroutines.
  The file then holds exactly the records the producer sent, in the order of sending,
  each followed by the line feed (passed through the compressor if configured); the
  channel is drained and no fatal error occurred. The records sent are those of the
  producer's loop; at every moment of the run the bytes written and the records waiting in
  the channel make up the records sent so far; and against a service that answers from an
  index, the records are the hits of the index in its order, ascending in the sort value,
  and for every capacity there is a run that completes.
\<close>

theorem output_is_the_enqueued_sequence:
  assumes "main config client parser w = Inr s0" and "reaches M Z config cap s0 s"
    and "consumer_at s = ConsumerDone"
  shows "files (world s) (File config)
        = Some (sink_bytes Z config (concat (map (\<lambda>r. r @ ln) (Tasks (dump s)))))
     \<and> chan s = [] \<and> exited s = None
     \<and> outcome M (dump s0) config = Some (Inr (dump s))
     \<and> (\<forall>t. reaches M Z config cap s0 t \<longrightarrow>
           written t @ concat (map (\<lambda>r. r @ ln) (chan t)) = concat (map (\<lambda>r. r @ ln) (Tasks (dump t))))
     \<and> (\<forall>docs W. index_ok docs \<and> serves config (dump s0) docs \<and> 0 < W
            \<and> W = nat (sint (Configuration.Size config))
          \<longrightarrow> Tasks (dump s) = map (\<lambda>v. M (strip_sort v)) docs
              \<and> sorted_wrt (<) (map sort_value docs)
              \<and> (\<forall>cap'. \<exists>s'. reaches M Z config cap' s0 s' \<and> consumer_at s' = ConsumerDone))"
proof -
  note fin = completed_run [OF assms]
  have mid: "\<forall>t. reaches M Z config cap s0 t \<longrightarrow>
           written t @ concat (map (\<lambda>r. r @ ln) (chan t)) = concat (map (\<lambda>r. r @ ln) (Tasks (dump t)))"
    using fifo_inv_reaches [OF _ fifo_inv_main [OF assms(1)]] by (auto simp: fifo_inv_def)
  have fresh: "File config \<notin> dom (files w)"
  proof
    assume "File config \<in> dom (files w)"
    from blocked_run [OF assms(1) this assms(2)] assms(3) show False by simp
  qed
  have idx: "Tasks (dump s) = map (\<lambda>v. M (strip_sort v)) docs
              \<and> sorted_wrt (<) (map sort_value docs)
              \<and> (\<forall>cap'. \<exists>s'. reaches M Z config cap' s0 s' \<and> consumer_at s' = ConsumerDone)"
    if h: "index_ok docs \<and> serves config (dump s0) docs \<and> 0 < W
            \<and> W = nat (sint (Configuration.Size config))" for docs W
  proof -
    from h have ok: "index_ok docs" and srv: "serves config (dump s0) docs" and W: "0 < W"
      "W = nat (sint (Configuration.Size config))" by blast+
    from outcome_index [OF assms(1) ok srv W, of M] fin(5)
    have t: "Tasks (dump s) = map (\<lambda>v. M (strip_sort v)) docs" by auto
    from ok have srt: "sorted_wrt (<) (map sort_value docs)" by (simp add: index_ok_def)
    from run_exists [OF assms(1) ok srv W fresh] t srt show ?thesis by blast
  qed
  from fin mid idx show ?thesis by blast
qed

text \<open>
  The theorem on the example with a channel of capacity 0: a completed run exists, and
  its file holds the three records in the order \<open>a\<close>, \<open>b\<close>, \<open>c\<close>.
\<close>

theorem output_is_the_enqueued_sequence_witness:
  \<open>\<exists>s. reaches MarshalTo_plain (\<lambda>q b. b) example_config 0 example_start s
     \<and> consumer_at s = ConsumerDone
     \<and> files (world s) ''graylog_0.json''
         = Some (''{"_id":"a"}'' @ ln @ ''{"_id":"b"}'' @ ln @ ''{"_id":"c"}'' @ ln)
     \<and> chan s = [] \<and> exited s = None\<close>
proof -
  from run_exists [OF example_main example_index_ok example_start_serves example_window_size
      example_file_fresh, of MarshalTo_plain "\<lambda>q b. b" 0]
  obtain s where r: "reaches MarshalTo_plain (\<lambda>q b. b) example_config 0 example_start s"
    and d: "consumer_at s = ConsumerDone" by blast
  note fact = output_is_the_enqueued_sequence [OF example_main r d]
  from fact have f: "files (world s) (File example_config)
        = Some (sink_bytes (\<lambda>q b. b) example_config (concat (map (\<lambda>r. r @ ln) (Tasks (dump s)))))"
    and c: "chan s = []" "exited s = None" by blast+
  from fact have "\<forall>docs W. index_ok docs \<and> serves example_config (dump example_start) docs \<and> 0 < W
            \<and> W = nat (sint (Configuration.Size example_config))
          \<longrightarrow> Tasks (dump s) = map (\<lambda>v. MarshalTo_plain (strip_sort v)) docs" by blast
  with example_index_ok example_start_serves example_window_size
  have t: "Tasks (dump s) = map (\<lambda>v. MarshalTo_plain (strip_sort v)) example_docs" by blast
  have \<open>files (world s) ''graylog_0.json''
         = Some (''{"_id":"a"}'' @ ln @ ''{"_id":"b"}'' @ ln @ ''{"_id":"c"}'' @ ln)\<close>
    using f unfolding t example_records by (simp add: sink_bytes_def example_config_def)
  with r d c show ?thesis by (intro exI [of _ s]) simp
qed

section \<open>C6: the output file is already there\<close>

text \<open>
  C6. When a file exists at the output path, the consumer's only step is the fatal exit
  with the resource error, and it leaves the files and the bytes written as they are. In
  a run that \<open>main\<close> starts with the file in place, the files never change, nothing is
  written, the consumer never gets past the opening, the fatal exit of the consumer is
  open as long as the process lives, and a fatal exit is the resource error or a fatal
  error of the producer's loop. A fatal end of \<open>main\<close> before the goroutines leaves the
  files alone too. So after a completed run, which leaves its file at the path, a second
  run against the same service and path never completes, can end only with the resource
  error, and leaves the first run's file as it is, byte for byte.
\<close>

theorem existing_output_file_is_fatal:
  "(consumer_step Z config s s' \<and> consumer_at s = Opening \<and> File config \<in> dom (files (world s))
      \<longrightarrow> s' = s\<lparr>exited := Some OpenFailed\<rparr>)
   \<and> (\<forall>s0 t. main config client parser w = Inr s0 \<and> File config \<in> dom (files w)
          \<and> reaches M Z config cap s0 t
        \<longrightarrow> files (world t) = files w \<and> written t = [] \<and> consumer_at t \<noteq> ConsumerDone
            \<and> (exited t = None \<longrightarrow> consumer_step Z config t (t\<lparr>exited := Some OpenFailed\<rparr>))
            \<and> (\<forall>e. exited t = Some e \<longrightarrow> e = OpenFailed \<or> outcome M (dump s0) config = Some (Inl e)))
   \<and> (\<forall>e w'. main config client parser w = Inl (e, w') \<longrightarrow> files w' = files w)
   \<and> (\<forall>s0 s1 t0 t cap2. main config client parser w = Inr s0 \<and> reaches M Z config cap s0 s1
          \<and> consumer_at s1 = ConsumerDone
          \<and> main config client parser (world s1) = Inr t0 \<and> reaches M Z config cap2 t0 t
        \<longrightarrow> files (world s1) (File config) \<noteq> None
            \<and> files (world t) = files (world s1) \<and> written t = [] \<and> consumer_at t \<noteq> ConsumerDone
            \<and> (exited t = None \<longrightarrow> consumer_step Z config t (t\<lparr>exited := Some OpenFailed\<rparr>))
            \<and> (\<forall>e. exited t = Some e \<longrightarrow> e = OpenFailed))"
proof -
  have first: "consumer_step Z config s s' \<and> consumer_at s = Opening \<and> File config \<in> dom (files (world s))
      \<longrightarrow> s' = s\<lparr>exited := Some OpenFailed\<rparr>"
    by (auto elim: consumer_step.cases)
  have run: "files (world t) = files v \<and> written t = [] \<and> consumer_at t \<noteq> ConsumerDone
            \<and> (exited t = None \<longrightarrow> consumer_step Z config t (t\<lparr>exited := Some OpenFailed\<rparr>))
            \<and> (\<forall>e. exited t = Some e \<longrightarrow> e = OpenFailed \<or> outcome M (dump s0) config = Some (Inl e))"
    if m: "main config client parser v = Inr s0" and f: "File config \<in> dom (files v)"
      and r: "reaches M Z config cap s0 t" for s0 t v cap
  proof -
    from blocked_run [OF m f r] have b: "files (world t) = files v" "written t = []" "consumer_at t = Opening"
      by simp_all
    from b f have "exited t = None \<longrightarrow> consumer_step Z config t (t\<lparr>exited := Some OpenFailed\<rparr>)"
      by (auto intro: consumer_step.open_fatal)
    moreover from exit_reaches [OF r producer_inv_main [OF m]] main_starts [OF m]
    have "\<forall>e. exited t = Some e \<longrightarrow> e = OpenFailed \<or> outcome M (dump s0) config = Some (Inl e)"
      by simp
    ultimately show ?thesis using b by simp
  qed
  have twice: "files (world s1) (File config) \<noteq> None
            \<and> files (world t) = files (world s1) \<and> written t = [] \<and> consumer_at t \<noteq> ConsumerDone
            \<and> (exited t = None \<longrightarrow> consumer_step Z config t (t\<lparr>exited := Some OpenFailed\<rparr>))
            \<and> (\<forall>e. exited t = Some e \<longrightarrow> e = OpenFailed)"
    if h: "main config client parser w = Inr s0 \<and> reaches M Z config cap s0 s1
          \<and> consumer_at s1 = ConsumerDone
          \<and> main config client parser (world s1) = Inr t0 \<and> reaches M Z config cap2 t0 t"
    for s0 s1 t0 t cap2
  proof -
    from h have m: "main config client parser w = Inr s0" and r: "reaches M Z config cap s0 s1"
      and d: "consumer_at s1 = ConsumerDone" and m2: "main config client parser (world s1) = Inr t0"
      and r2: "reaches M Z config cap2 t0 t" by blast+
    note fin = completed_run [OF m r d]
    from fin(1) have f: "File config \<in> dom (files (world s1))" by auto
    from main_starts [OF m] main_starts [OF m2] have same: "dump t0 = dump s0" by simp
    from run [OF m2 f r2] fin(5) f show ?thesis unfolding same by auto
  qed
  from first run [where v = w and cap = cap] main_fatal_files [of config client parser w] twice show ?thesis by blast
qed

text \<open>
  The theorem on the example: a first run completes and leaves its file; \<open>main\<close> starts a
  second run in that world, with the same files; and the consumer's step there is the
  fatal exit with the resource error.
\<close>

theorem existing_output_file_is_fatal_witness:
  "\<exists>s1 t0. reaches MarshalTo_plain (\<lambda>q b. b) example_config tasks_capacity example_start s1
     \<and> consumer_at s1 = ConsumerDone
     \<and> main example_config example_client example_parser (world s1) = Inr t0
     \<and> files (world s1) (File example_config) \<noteq> None
     \<and> files (world t0) = files (world s1) \<and> written t0 = []
     \<and> consumer_step (\<lambda>q b. b) example_config t0 (t0\<lparr>exited := Some OpenFailed\<rparr>)"
proof -
  from run_exists [OF example_main example_index_ok example_start_serves example_window_size
      example_file_fresh, of MarshalTo_plain "\<lambda>q b. b" tasks_capacity]
  obtain s1 where r: "reaches MarshalTo_plain (\<lambda>q b. b) example_config tasks_capacity example_start s1"
    and d: "consumer_at s1 = ConsumerDone" by blast
  let ?t0 = "example_start\<lparr>world := (world s1)\<lparr>requests := requests (world s1) @ [count_request example_config]\<rparr>\<rparr>"
  have m2: "main example_config example_client example_parser (world s1) = Inr ?t0"
    by (rule main_any_world [OF example_main])
  have r2: "reaches MarshalTo_plain (\<lambda>q b. b) example_config tasks_capacity ?t0 ?t0"
    by (rule reaches_refl)
  have e: "exited ?t0 = None" using main_starts [OF m2] by simp
  from existing_output_file_is_fatal [of "\<lambda>q b. b" example_config _ _ example_client example_parser
      example_world MarshalTo_plain tasks_capacity]
  have "\<forall>s0 s1 t0 t cap2. main example_config example_client example_parser example_world = Inr s0
          \<and> reaches MarshalTo_plain (\<lambda>q b. b) example_config tasks_capacity s0 s1
          \<and> consumer_at s1 = ConsumerDone
          \<and> main example_config example_client example_parser (world s1) = Inr t0
          \<and> reaches MarshalTo_plain (\<lambda>q b. b) example_config cap2 t0 t
        \<longrightarrow> files (world s1) (File example_config) \<noteq> None
            \<and> files (world t) = files (world s1) \<and> written t = [] \<and> consumer_at t \<noteq> ConsumerDone
            \<and> (exited t = None \<longrightarrow> consumer_step (\<lambda>q b. b) example_config t (t\<lparr>exited := Some OpenFailed\<rparr>))
            \<and> (\<forall>e. exited t = Some e \<longrightarrow> e = OpenFailed)"
    by blast
  from this [rule_format, of example_start s1 ?t0 tasks_capacity ?t0] example_main r d m2 r2 e
  have "files (world s1) (File example_config) \<noteq> None
     \<and> files (world ?t0) = files (world s1) \<and> written ?t0 = []
     \<and> consumer_step (\<lambda>q b. b) example_config ?t0 (?t0\<lparr>exited := Some OpenFailed\<rparr>)"
    by blast
  with r d m2 show ?thesis by blast
qed

section \<open>C3: a line of the output is a hit without its sort annotation\<close>

text \<open>
  C3. The records of a window are the hits, in order, each with its sort annotation
  deleted and then serialised; the consumer writes each record followed by exactly one
  line feed byte. Deleting the annotation leaves a hit without one as it is, and takes
  from an object the member \<open>sort\<close> the code reads and nothing else: the members before
  and after it stay, in order, every other key reads as before, and an object with
  distinct names has no \<open>sort\<close> left. Where the parser reads the serialiser's text back,
  every record parses to its hit without the annotation. And in a completed run without
  compression against an index, the file is the one line per hit of the index.
\<close>

theorem lines_are_hits_without_sort:
  "fst (parse_hits M hits (res, c)) = res @ map (\<lambda>h. M (strip_sort h)) hits
   \<and> foldl Write_record out (map (\<lambda>h. M (strip_sort h)) hits)
       = out @ concat (map (\<lambda>h. M (strip_sort h) @ [CHR 0x0A]) hits)
   \<and> (\<not> Exists (Some h) [''sort''] \<longrightarrow> strip_sort h = h)
   \<and> (Exists (Some h) [''sort''] \<longrightarrow>
        (\<exists>pre srt post. h = TypeObject (pre @ (''sort'', srt) # post) \<and> ''sort'' \<notin> fst ` set pre
           \<and> strip_sort h = TypeObject (pre @ post)))
   \<and> (k \<noteq> ''sort'' \<longrightarrow> Get (Some (strip_sort (TypeObject kvs))) [k] = Get (Some (TypeObject kvs)) [k])
   \<and> (distinct (map fst kvs) \<longrightarrow> \<not> Exists (Some (strip_sort (TypeObject kvs))) [''sort''])
   \<and> ((\<forall>h \<in> set hits. Parser c (M (strip_sort h)) = Some (strip_sort h))
        \<longrightarrow> map (Parser c) (fst (parse_hits M hits ([], c))) = map (\<lambda>h. Some (strip_sort h)) hits)
   \<and> (\<forall>config client parser w s0 Z cap s docs W.
        main config client parser w = Inr s0 \<and> reaches M Z config cap s0 s
        \<and> consumer_at s = ConsumerDone \<and> \<not> Brotli config
        \<and> index_ok docs \<and> serves config (dump s0) docs \<and> 0 < W
        \<and> W = nat (sint (Configuration.Size config))
        \<longrightarrow> files (world s) (File config) = Some (concat (map (\<lambda>h. M (strip_sort h) @ [CHR 0x0A]) docs)))"
proof -
  have a: "fst (parse_hits M hits (res, c)) = res @ map (\<lambda>h. M (strip_sort h)) hits"
    by (simp add: parse_hits_eq)
  have b: "(\<forall>h \<in> set hits. Parser c (M (strip_sort h)) = Some (strip_sort h))
        \<longrightarrow> map (Parser c) (fst (parse_hits M hits ([], c))) = map (\<lambda>h. Some (strip_sort h)) hits"
    by (simp add: parse_hits_eq)
  have run: "files (world s) (File config) = Some (concat (map (\<lambda>h. M (strip_sort h) @ [CHR 0x0A]) docs))"
    if h: "main config client parser w = Inr s0 \<and> reaches M Z config cap s0 s
        \<and> consumer_at s = ConsumerDone \<and> \<not> Brotli config
        \<and> index_ok docs \<and> serves config (dump s0) docs \<and> 0 < W
        \<and> W = nat (sint (Configuration.Size config))"
    for config client parser w s0 Z cap s docs W
  proof -
    from h have m: "main config client parser w = Inr s0" and r: "reaches M Z config cap s0 s"
      and d: "consumer_at s = ConsumerDone" and nb: "\<not> Brotli config"
      and ok: "index_ok docs" and srv: "serves config (dump s0) docs" and W: "0 < W"
      "W = nat (sint (Configuration.Size config))" by blast+
    note fin = completed_run [OF m r d]
    from outcome_index [OF m ok srv W, of M] fin(5)
    have t: "Tasks (dump s) = map (\<lambda>v. M (strip_sort v)) docs" by auto
    from fin(1) nb show ?thesis unfolding t by (simp add: sink_bytes_def ln_def comp_def)
  qed
  have w: "foldl Write_record out (map (\<lambda>h. M (strip_sort h)) hits)
       = out @ concat (map (\<lambda>h. M (strip_sort h) @ [CHR 0x0A]) hits)"
    by (simp add: foldl_Write_record comp_def)
  have c1: "\<not> Exists (Some h) [''sort''] \<longrightarrow> strip_sort h = h"
    by (simp add: strip_sort_def)
  have c2: "Exists (Some h) [''sort''] \<longrightarrow>
        (\<exists>pre srt post. h = TypeObject (pre @ (''sort'', srt) # post) \<and> ''sort'' \<notin> fst ` set pre
           \<and> strip_sort h = TypeObject (pre @ post))"
    using strip_sort_shape [of h] by blast
  have d: "k \<noteq> ''sort'' \<longrightarrow> Get (Some (strip_sort (TypeObject kvs))) [k] = Get (Some (TypeObject kvs)) [k]"
    using strip_sort_other [of k kvs] by blast
  have e: "distinct (map fst kvs) \<longrightarrow> \<not> Exists (Some (strip_sort (TypeObject kvs))) [''sort'']"
    using strip_sort_gone [of kvs] by blast
  have r: "\<forall>config client parser w s0 Z cap s docs W.
        main config client parser w = Inr s0 \<and> reaches M Z config cap s0 s
        \<and> consumer_at s = ConsumerDone \<and> \<not> Brotli config
        \<and> index_ok docs \<and> serves config (dump s0) docs \<and> 0 < W
        \<and> W = nat (sint (Configuration.Size config))
        \<longrightarrow> files (world s) (File config) = Some (concat (map (\<lambda>h. M (strip_sort h) @ [CHR 0x0A]) docs))"
    using run by blast
  show ?thesis
    by (intro conjI) (rule a w c1 c2 d e b r)+
qed

text \<open>
  The theorem on the example: the hit \<open>a\<close> gives the record \<open>{"_id":"a"}\<close>, written with one
  line feed, which a parser that knows this text reads back as the hit without \<open>sort\<close>;
  and a completed run leaves the three lines in the file.
\<close>

theorem lines_are_hits_without_sort_witness:
  \<open>fst (parse_hits MarshalTo_plain [example_hit ''a'']
        ([], example_ctx\<lparr>Parser := (\<lambda>b. if b = ''{"_id":"a"}'' then Some (TypeObject [(''_id'', TypeString ''a'')]) else None)\<rparr>))
     = [''{"_id":"a"}'']
   \<and> foldl Write_record [] (map (\<lambda>h. MarshalTo_plain (strip_sort h)) [example_hit ''a''])
       = ''{"_id":"a"}'' @ [CHR 0x0A]
   \<and> strip_sort (example_hit ''a'') = TypeObject [(''_id'', TypeString ''a'')]
   \<and> map (\<lambda>b. if b = ''{"_id":"a"}'' then Some (TypeObject [(''_id'', TypeString ''a'')]) else None)
        (fst (parse_hits MarshalTo_plain [example_hit ''a'']
          ([], example_ctx\<lparr>Parser := (\<lambda>b. if b = ''{"_id":"a"}'' then Some (TypeObject [(''_id'', TypeString ''a'')]) else None)\<rparr>)))
       = [Some (TypeObject [(''_id'', TypeString ''a'')])]
   \<and> (\<exists>s. reaches MarshalTo_plain (\<lambda>q b. b) example_config tasks_capacity example_start s
         \<and> consumer_at s = ConsumerDone
         \<and> files (world s) ''graylog_0.json''
             = Some (''{"_id":"a"}'' @ [CHR 0x0A] @ ''{"_id":"b"}'' @ [CHR 0x0A] @ ''{"_id":"c"}'' @ [CHR 0x0A]))\<close>
proof -
  let ?p = \<open>\<lambda>b. if b = ''{"_id":"a"}'' then Some (TypeObject [(''_id'', TypeString ''a'')]) else None\<close>
  let ?c = "example_ctx\<lparr>Parser := ?p\<rparr>"
  let ?a = "TypeObject [(''_id'', TypeString ''a'')]"
  note fact = lines_are_hits_without_sort [of MarshalTo_plain "[example_hit ''a'']" "[]" ?c "[]"
      "example_hit ''a''" "''_id''" "[(''_id'', TypeString ''a''), (''sort'', TypeArray [TypeString ''a''])]"]
  have ex: "Exists (Some (example_hit ''a'')) [''sort'']"
    by (simp add: example_hit_def Exists_def)
  have st: "strip_sort (example_hit ''a'') = ?a"
    by (simp add: example_hit_def strip_sort_def Exists_def)
  have rec: \<open>MarshalTo_plain ?a = ''{"_id":"a"}''\<close>
    by simp
  have trip: "\<forall>h \<in> set [example_hit ''a'']. Parser ?c (MarshalTo_plain (strip_sort h)) = Some (strip_sort h)"
    by (simp add: st)
  from fact have 1: "fst (parse_hits MarshalTo_plain [example_hit ''a''] ([], ?c))
      = [] @ map (\<lambda>h. MarshalTo_plain (strip_sort h)) [example_hit ''a'']" by blast
  from fact have 2: "foldl Write_record [] (map (\<lambda>h. MarshalTo_plain (strip_sort h)) [example_hit ''a''])
      = [] @ concat (map (\<lambda>h. MarshalTo_plain (strip_sort h) @ [CHR 0x0A]) [example_hit ''a''])" by blast
  from fact trip have 3: "map (Parser ?c) (fst (parse_hits MarshalTo_plain [example_hit ''a''] ([], ?c)))
      = map (\<lambda>h. Some (strip_sort h)) [example_hit ''a'']" by blast
  from run_exists [OF example_main example_index_ok example_start_serves example_window_size
      example_file_fresh, of MarshalTo_plain "\<lambda>q b. b" tasks_capacity]
  obtain s where r: "reaches MarshalTo_plain (\<lambda>q b. b) example_config tasks_capacity example_start s"
    and d: "consumer_at s = ConsumerDone" by blast
  have nb: "\<not> Brotli example_config" by (simp add: example_config_def)
  from fact have "\<forall>config client parser w s0 Z cap s docs W.
        main config client parser w = Inr s0 \<and> reaches MarshalTo_plain Z config cap s0 s
        \<and> consumer_at s = ConsumerDone \<and> \<not> Brotli config
        \<and> index_ok docs \<and> serves config (dump s0) docs \<and> 0 < W
        \<and> W = nat (sint (Configuration.Size config))
        \<longrightarrow> files (world s) (File config)
            = Some (concat (map (\<lambda>h. MarshalTo_plain (strip_sort h) @ [CHR 0x0A]) docs))" by blast
  from this [rule_format, of example_config example_client example_parser example_world example_start
      "\<lambda>q b. b" tasks_capacity s example_docs 2]
    example_main r d nb example_index_ok example_start_serves example_window_size
  have "files (world s) (File example_config)
      = Some (concat (map (\<lambda>h. MarshalTo_plain (strip_sort h) @ [CHR 0x0A]) example_docs))"
    by blast
  then have 4: \<open>files (world s) ''graylog_0.json''
      = Some (''{"_id":"a"}'' @ [CHR 0x0A] @ ''{"_id":"b"}'' @ [CHR 0x0A] @ ''{"_id":"c"}'' @ [CHR 0x0A])\<close>
    by (simp add: example_config_def example_docs_def example_hit_def strip_sort_def Exists_def)
  from r d 4 have 5: \<open>\<exists>s. reaches MarshalTo_plain (\<lambda>q b. b) example_config tasks_capacity example_start s
         \<and> consumer_at s = ConsumerDone
         \<and> files (world s) ''graylog_0.json''
             = Some (''{"_id":"a"}'' @ [CHR 0x0A] @ ''{"_id":"b"}'' @ [CHR 0x0A] @ ''{"_id":"c"}'' @ [CHR 0x0A])\<close>
    by (intro exI [of _ s]) simp
  from 1 2 3 st rec have 6: \<open>fst (parse_hits MarshalTo_plain [example_hit ''a''] ([], ?c)) = [''{"_id":"a"}'']
     \<and> foldl Write_record [] (map (\<lambda>h. MarshalTo_plain (strip_sort h)) [example_hit ''a''])
       = ''{"_id":"a"}'' @ [CHR 0x0A]
     \<and> strip_sort (example_hit ''a'') = ?a
     \<and> map ?p (fst (parse_hits MarshalTo_plain [example_hit ''a''] ([], ?c))) = [Some ?a]\<close>
    by simp
  from 6 5 show ?thesis by (elim conjE) (intro conjI; assumption)
qed


end
